theory Spec2Isabelle
  imports Complex_Main "HOL-Library.AList" "HOL-Library.Product_Lexorder"
begin

section \<open>Data model\<close>

text \<open>
  An edge is the Python tuple \<open>(a, b)\<close> of two vertex indices. The generator only ever
  builds indices from \<open>0\<close>, \<open>1\<close>, \<open>2\<close> and its counter \<open>node_idx\<close>, so they are
  naturals here. Python sets are HOL sets, Python dicts are maps; \<open>self.lines\<close>, whose
  length is read, is an association list in insertion order.
\<close>

type_synonym edge = "nat \<times> nat"

datatype error = IndexError | KeyError | AssertionError | RuntimeError | ZeroDivisionError

text \<open>
  The iteration order of a Python set is not specified by the language. Every loop over a
  set and every \<open>tuple(s)\<close> goes through a parameter \<open>iter\<close> that lists the set; all
  that is known of it is \<open>set_order\<close>: each element of a finite set is visited once.
\<close>

definition set_order :: "(edge set \<Rightarrow> edge list) \<Rightarrow> bool" where
  "set_order iter = (\<forall>S. finite S \<longrightarrow> set (iter S) = S \<and> distinct (iter S))"

text \<open>The fields of \<open>RandomGraph2\<close> that are state; the two tuning constants are below.\<close>

record RandomGraph2 =
  outside_edges :: "edge set"
  node_idx :: nat
  limit :: int
  edges :: "edge set"

text \<open>\<open>xs[i]\<close> for a non-negative index, and for any Python int (negative ones wrap).\<close>

definition nth_py :: "'a list \<Rightarrow> nat \<Rightarrow> error + 'a" where
  "nth_py xs i = (if i < length xs then Inr (xs ! i) else Inl IndexError)"

definition index_py :: "'a list \<Rightarrow> int \<Rightarrow> error + 'a" where
  "index_py xs i =
     (if 0 \<le> i \<and> i < int (length xs) then Inr (xs ! nat i)
      else if i < 0 \<and> - int (length xs) \<le> i then Inr (xs ! nat (int (length xs) + i))
      else Inl IndexError)"

section \<open>getEdges\<close>

text \<open>
  \<^verbatim>\<open>n2e = [list() for i in range(self.node_idx)]
for (a,b) in self.edges:
  n2e[a].append((a,b))
  n2e[b].append((a,b))
return (self.edges, n2e)\<close>
\<close>

fun getEdges_loop :: "edge list \<Rightarrow> edge list list \<Rightarrow> error + edge list list" where
  "getEdges_loop [] n2e = Inr n2e"
| "getEdges_loop ((a, b) # rest) n2e =
     (if a < length n2e then
        (let n2e1 = n2e[a := n2e ! a @ [(a, b)]] in
         if b < length n2e1 then getEdges_loop rest (n2e1[b := n2e1 ! b @ [(a, b)]])
         else Inl IndexError)
      else Inl IndexError)"

definition getEdges ::
  "(edge set \<Rightarrow> edge list) \<Rightarrow> RandomGraph2 \<Rightarrow> error + (edge set \<times> edge list list)" where
  "getEdges iter g =
     (case getEdges_loop (iter (edges g)) (replicate (node_idx g) []) of
        Inl e \<Rightarrow> Inl e
      | Inr n2e \<Rightarrow> Inr (edges g, n2e))"

section \<open>The crossing tracker (class Scene)\<close>

text \<open>
  A position is whatever \<open>Node.pos()\<close> returns; the tracker never computes with it, so
  it is a type parameter \<open>'p\<close>. A line item holds the two end positions it was last
  given by \<open>addLine\<close> or \<open>setLine\<close>. The geometric test behind
  \<open>collidingItems(Qt.IntersectsItemShape)\<close> is the parameter \<open>cross\<close>.
\<close>

type_synonym 'p seg = "'p \<times> 'p"

record 'p scene =
  nodes :: "'p list"
  lines :: "(edge \<times> 'p seg) list"
  node2lines :: "edge list list"
  collisions :: "edge \<rightharpoonup> edge set"
  untangled :: "edge set"

text \<open>
  \<open>lines[ab].collidingItems(...)\<close>: the other line items of the scene whose shape meets
  that of \<open>lines[ab]\<close>. Qt never lists the item itself. Node items are in the scene
  during \<open>updateNode\<close> but are skipped there by the \<open>isinstance\<close> test, so they are left
  out.
\<close>

definition collidingItems ::
  "('p seg \<Rightarrow> 'p seg \<Rightarrow> bool) \<Rightarrow> (edge \<times> 'p seg) list \<Rightarrow> edge \<Rightarrow> edge list" where
  "collidingItems cross ls ab =
     (case map_of ls ab of
        None \<Rightarrow> []
      | Some s \<Rightarrow> map fst (filter (\<lambda>(l, t). l \<noteq> ab \<and> cross s t) ls))"

text \<open>\<^verbatim>\<open>len(set(l.ab + ab)) < 4\<close>\<close>

definition lines_connected :: "edge \<Rightarrow> edge \<Rightarrow> bool" where
  "lines_connected l ab = (length (remdups [fst l, snd l, fst ab, snd ab]) < 4)"

text \<open>
  \<^verbatim>\<open>collisions.get(k, ())\<close>: the set stored at \<open>k\<close>, or nothing to iterate over when
  the key is absent.
\<close>

definition collisions_get :: "('a \<rightharpoonup> 'a set) \<Rightarrow> 'a \<Rightarrow> 'a set" where
  "collisions_get c k = (case c k of None \<Rightarrow> {} | Some S \<Rightarrow> S)"

text \<open>\<^verbatim>\<open>collisions.setdefault(k, set()).add(x)\<close>\<close>

definition setdefault_add :: "'a \<Rightarrow> 'a \<Rightarrow> ('a \<rightharpoonup> 'a set) \<Rightarrow> ('a \<rightharpoonup> 'a set)" where
  "setdefault_add k x c = c(k \<mapsto> insert x (collisions_get c k))"

text \<open>
  The body of \<open>Scene.init\<close> from \<open>edges, node2lines = g.getEdges()\<close> on. Each edge gets
  its line item, and is tested against the items added before it:
  \<^verbatim>\<open>for ab in edges:
  a,b = ab
  lines[ab] = self.addLine(QLineF(self.nodes[a].pos(), self.nodes[b].pos()), gray_pen)
  lines[ab].ab = ab
  for l in lines[ab].collidingItems(Qt.IntersectsItemShape):
    if len(set(l.ab + ab)) < 4:
      continue
    collisions.setdefault(ab, set()).add(l.ab)
    collisions.setdefault(l.ab, set()).add(ab)\<close>
\<close>

definition init_collide :: "edge \<Rightarrow> edge list \<Rightarrow> (edge \<rightharpoonup> edge set) \<Rightarrow> (edge \<rightharpoonup> edge set)" where
  "init_collide ab ls c =
     fold (\<lambda>l c. if lines_connected l ab then c
                  else setdefault_add l ab (setdefault_add ab l c)) ls c"

fun init_loop ::
  "('p seg \<Rightarrow> 'p seg \<Rightarrow> bool) \<Rightarrow> 'p list \<Rightarrow> edge list \<Rightarrow>
   (edge \<times> 'p seg) list \<times> (edge \<rightharpoonup> edge set) \<Rightarrow>
   error + (edge \<times> 'p seg) list \<times> (edge \<rightharpoonup> edge set)" where
  "init_loop cross ns [] (ls, c) = Inr (ls, c)"
| "init_loop cross ns (ab # rest) (ls, c) =
     (case nth_py ns (fst ab) of
        Inl e \<Rightarrow> Inl e
      | Inr pa \<Rightarrow>
         (case nth_py ns (snd ab) of
            Inl e \<Rightarrow> Inl e
          | Inr pb \<Rightarrow>
             (let ls1 = AList.update ab (pa, pb) ls
              in init_loop cross ns rest
                   (ls1, init_collide ab (collidingItems cross ls1 ab) c))))"

text \<open>
  \<^verbatim>\<open>self.untangled = set(edges - collisions.keys())
self.lines = lines
self.node2lines = node2lines
self.collisions = collisions\<close>
  The first line of \<open>Scene.init\<close> builds \<open>RandomGraph1(n)\<close>, a class the file does not
  define; the graph object is an argument here.
\<close>

definition init ::
  "(edge set \<Rightarrow> edge list) \<Rightarrow> ('p seg \<Rightarrow> 'p seg \<Rightarrow> bool) \<Rightarrow> RandomGraph2 \<Rightarrow> 'p list \<Rightarrow>
   error + 'p scene" where
  "init iter cross g ns =
     (case getEdges iter g of
        Inl e \<Rightarrow> Inl e
      | Inr (es, n2e) \<Rightarrow>
         (case init_loop cross ns (iter es) ([], Map.empty) of
            Inl e \<Rightarrow> Inl e
          | Inr (ls, c) \<Rightarrow>
              Inr \<lparr>nodes = ns, lines = ls, node2lines = n2e, collisions = c,
                   untangled = es - dom c\<rparr>))"

text \<open>
  The first inner loop of \<open>updateNode\<close>:
  \<^verbatim>\<open>for xy in self.collisions.get(ab, ()):
  if xy in coll:
    continue
  self.collisions[xy].remove(ab)
  if len(self.collisions[xy]) == 0:
    del self.collisions[xy]
    self.untangled.add(xy)
    self.lines[xy].setPen(black_pen)\<close>
  The loop runs over the set object stored at \<open>ab\<close>. Were \<open>xy\<close> equal to \<open>ab\<close>, the body
  would shrink that very set and the iterator would raise \<open>RuntimeError\<close> when asked for
  the next element.
\<close>

fun remove_old ::
  "edge \<Rightarrow> edge set \<Rightarrow> edge list \<Rightarrow> 'p scene \<Rightarrow> 'p scene \<times> error option" where
  "remove_old ab coll [] st = (st, None)"
| "remove_old ab coll (xy # rest) st =
     (if xy \<in> coll then remove_old ab coll rest st
      else
        (case collisions st xy of
           None \<Rightarrow> (st, Some KeyError)
         | Some S \<Rightarrow>
            if ab \<notin> S then (st, Some KeyError)
            else if S - {ab} = {} then
              (let st1 = st\<lparr>collisions := (collisions st)(xy := None),
                            untangled := insert xy (untangled st)\<rparr>
               in if map_of (lines st1) xy = None then (st1, Some KeyError)
                  else if xy = ab then (st1, Some RuntimeError)
                  else remove_old ab coll rest st1)
            else
              (let st1 = st\<lparr>collisions := (collisions st)(xy \<mapsto> S - {ab})\<rparr>
               in if xy = ab then (st1, Some RuntimeError)
                  else remove_old ab coll rest st1)))"

text \<open>
  The second inner loop:
  \<^verbatim>\<open>for xy in coll:
  if xy not in self.collisions:
    self.untangled.remove(xy)
    self.collisions[xy] = set()
  self.collisions[xy].add(ab)\<close>
  \<open>coll\<close> is by now also the set stored at \<open>ab\<close>; it never holds \<open>ab\<close> itself (a line is
  connected to itself), so the body never writes to the set being iterated.
\<close>

fun tangle :: "edge \<Rightarrow> edge list \<Rightarrow> 'p scene \<Rightarrow> 'p scene \<times> error option" where
  "tangle ab [] st = (st, None)"
| "tangle ab (xy # rest) st =
     (case collisions st xy of
        None \<Rightarrow>
          if xy \<notin> untangled st then (st, Some KeyError)
          else tangle ab rest
                 (st\<lparr>untangled := untangled st - {xy},
                     collisions := (collisions st)(xy \<mapsto> {ab})\<rparr>)
      | Some S \<Rightarrow> tangle ab rest (st\<lparr>collisions := (collisions st)(xy \<mapsto> insert ab S)\<rparr>))"

text \<open>
  One iteration of the outer loop of \<open>updateNode\<close>, for the edge \<open>ab\<close>;
  \<open>colliding_lines\<close> is the loop that fills \<open>coll\<close>:
  \<^verbatim>\<open>a,b = ab
self.lines[ab].setLine(QLineF(self.nodes[a].pos(), self.nodes[b].pos()))
coll = set()
for l in self.lines[ab].collidingItems(Qt.IntersectsItemShape):
  if not isinstance(l, QGraphicsLineItem):
    continue
  if len(set(l.ab + ab)) < 4:
    continue
  coll.add(l.ab)
... first inner loop ...
if len(coll) > 0:
  self.collisions[ab] = coll
  if ab in self.untangled:
    self.untangled.remove(ab)
  ... second inner loop ...
elif ab in self.collisions:
  del self.collisions[ab]
  self.untangled.add(ab)\<close>
\<close>

definition colliding_lines ::
  "('p seg \<Rightarrow> 'p seg \<Rightarrow> bool) \<Rightarrow> (edge \<times> 'p seg) list \<Rightarrow> edge \<Rightarrow> edge set" where
  "colliding_lines cross ls ab =
     set (filter (\<lambda>l. \<not> lines_connected l ab) (collidingItems cross ls ab))"

definition update_edge ::
  "(edge set \<Rightarrow> edge list) \<Rightarrow> ('p seg \<Rightarrow> 'p seg \<Rightarrow> bool) \<Rightarrow> edge \<Rightarrow> 'p scene \<Rightarrow>
   'p scene \<times> error option" where
  "update_edge iter cross ab st =
     (case map_of (lines st) ab of
        None \<Rightarrow> (st, Some KeyError)
      | Some _ \<Rightarrow>
         (case nth_py (nodes st) (fst ab) of
            Inl e \<Rightarrow> (st, Some e)
          | Inr pa \<Rightarrow>
             (case nth_py (nodes st) (snd ab) of
                Inl e \<Rightarrow> (st, Some e)
              | Inr pb \<Rightarrow>
                 (let st1 = st\<lparr>lines := AList.update ab (pa, pb) (lines st)\<rparr>;
                      coll = colliding_lines cross (lines st1) ab
                  in case remove_old ab coll (iter (collisions_get (collisions st1) ab)) st1 of
                       (st2, Some e) \<Rightarrow> (st2, Some e)
                     | (st2, None) \<Rightarrow>
                         if coll \<noteq> {} then
                           tangle ab (iter coll)
                             (st2\<lparr>collisions := (collisions st2)(ab \<mapsto> coll),
                                  untangled := untangled st2 - {ab}\<rparr>)
                         else if ab \<in> dom (collisions st2) then
                           (st2\<lparr>collisions := (collisions st2)(ab := None),
                                untangled := insert ab (untangled st2)\<rparr>, None)
                         else (st2, None)))))"

fun update_edges ::
  "(edge set \<Rightarrow> edge list) \<Rightarrow> ('p seg \<Rightarrow> 'p seg \<Rightarrow> bool) \<Rightarrow> edge list \<Rightarrow> 'p scene \<Rightarrow>
   'p scene \<times> error option" where
  "update_edges iter cross [] st = (st, None)"
| "update_edges iter cross (ab # rest) st =
     (case update_edge iter cross ab st of
        (st1, Some e) \<Rightarrow> (st1, Some e)
      | (st1, None) \<Rightarrow> update_edges iter cross rest st1)"

text \<open>
  \<open>updateNode(node)\<close>, with \<open>idx\<close> for \<open>node.idx\<close>. The result is the state the call
  leaves behind, together with either the exception it raised or the two numbers it emits
  on the \<open>progress\<close> signal. The list lookup \<open>self.node2lines[node.idx]\<close> comes before
  any write. After the loop,
  \<^verbatim>\<open>log.info("%.2f%% untangled", 100.0 * len(self.untangled)/float(len(self.lines)))
self.progress.emit(len(self.untangled), len(self.lines))\<close>
  and the division raises when there is no line at all.
\<close>

definition updateNode ::
  "(edge set \<Rightarrow> edge list) \<Rightarrow> ('p seg \<Rightarrow> 'p seg \<Rightarrow> bool) \<Rightarrow> int \<Rightarrow> 'p scene \<Rightarrow>
   'p scene \<times> (error + nat \<times> nat)" where
  "updateNode iter cross idx st =
     (case index_py (node2lines st) idx of
        Inl e \<Rightarrow> (st, Inl e)
      | Inr incident \<Rightarrow>
         (case update_edges iter cross incident st of
            (st1, Some e) \<Rightarrow> (st1, Inl e)
          | (st1, None) \<Rightarrow>
              if length (lines st1) = 0 then (st1, Inl ZeroDivisionError)
              else (st1, Inr (card (untangled st1), length (lines st1)))))"

text \<open>
  \<open>Node.mouseMoveEvent\<close>: \<^verbatim>\<open>self.setPos(evt.scenePos()); self.scene().updateNode(self)\<close>.
  The scene holds the node objects it made, one per index \<open>0..n-1\<close>, in \<open>self.nodes\<close>;
  a node object with any other \<open>idx\<close> is not among them, so moving it leaves
  \<open>self.nodes\<close> as it is.
\<close>

definition mouseMoveEvent ::
  "(edge set \<Rightarrow> edge list) \<Rightarrow> ('p seg \<Rightarrow> 'p seg \<Rightarrow> bool) \<Rightarrow> int \<Rightarrow> 'p \<Rightarrow> 'p scene \<Rightarrow>
   'p scene \<times> (error + nat \<times> nat)" where
  "mouseMoveEvent iter cross idx p st =
     updateNode iter cross idx
       (if 0 \<le> idx \<and> idx < int (length (nodes st))
        then st\<lparr>nodes := (nodes st)[nat idx := p]\<rparr> else st)"

text \<open>
  \<^verbatim>\<open>def checkVictory(self):
  self.refit.emit()
  if len(self.collisions) != 0:
    return
  self.victory.emit()\<close>
  The signals emitted, in order, and the state afterwards.
\<close>

datatype signal = Refit | Victory

definition checkVictory :: "'p scene \<Rightarrow> signal list \<times> 'p scene" where
  "checkVictory st =
     (if card (dom (collisions st)) \<noteq> 0 then ([Refit], st) else ([Refit, Victory], st))"

section \<open>Sequences of mouse moves\<close>

text \<open>
  The view delivers mouse moves one at a time, each running \<open>mouseMoveEvent\<close> to its
  end before the next. \<open>drags\<close> runs a list of moves, each a node index with the new
  position, from a given state; an exception in one of them ends the run, and the
  result is then \<open>None\<close>. The states of the tracker that can be met are those that
  \<open>init\<close> builds, followed by such a run.
\<close>

fun drags ::
  "(edge set \<Rightarrow> edge list) \<Rightarrow> ('p seg \<Rightarrow> 'p seg \<Rightarrow> bool) \<Rightarrow> (int \<times> 'p) list \<Rightarrow>
   'p scene \<Rightarrow> 'p scene option" where
  "drags iter cross [] st = Some st"
| "drags iter cross ((idx, p) # ms) st =
     (case mouseMoveEvent iter cross idx p st of
        (st1, Inl e) \<Rightarrow> None
      | (st1, Inr r) \<Rightarrow> drags iter cross ms st1)"

section \<open>What holds of every tracker state\<close>

text \<open>\<open>self.lines.keys()\<close>: the edges that have a line item.\<close>

definition line_keys :: "'p scene \<Rightarrow> edge set" where
  "line_keys st = fst ` set (lines st)"

text \<open>
  The entry of the collision dict for an edge whose set of crossing edges is \<open>S\<close>: no key
  at all when nothing crosses it.
\<close>

definition norm_set :: "'a set \<Rightarrow> 'a set option" where
  "norm_set S = (if S = {} then None else Some S)"

text \<open>
  A collision map over the keys \<open>K\<close> is well formed when no key holds the empty set and
  every recorded pair is a pair of keys, not connected, and recorded in both directions.
\<close>

definition wf_coll :: "'a set \<Rightarrow> ('a \<Rightarrow> 'a \<Rightarrow> bool) \<Rightarrow> ('a \<rightharpoonup> 'a set) \<Rightarrow> bool" where
  "wf_coll K conn c \<longleftrightarrow>
     (\<forall>k. c k \<noteq> Some {}) \<and>
     (\<forall>k x. x \<in> collisions_get c k \<longrightarrow>
        k \<in> K \<and> x \<in> K \<and> \<not> conn x k \<and> k \<in> collisions_get c x)"

text \<open>
  What one iteration of the outer loop of \<open>updateNode\<close> does to the collision map, when
  \<open>coll\<close> is the set of edges now crossing \<open>ab\<close>: the entry of \<open>ab\<close> becomes \<open>coll\<close>,
  and \<open>ab\<close> is taken out of, or put into, the entry of every other edge.
\<close>

definition step_coll :: "'a \<Rightarrow> 'a set \<Rightarrow> ('a \<rightharpoonup> 'a set) \<Rightarrow> ('a \<rightharpoonup> 'a set)" where
  "step_coll ab coll c =
     (\<lambda>k. if k = ab then norm_set coll
          else norm_set (collisions_get c k - {ab} \<union> (if k \<in> coll then {ab} else {})))"

text \<open>
  The state is well formed: one line item per key, a well-formed collision map over the
  keys, \<open>untangled\<close> the keys that are not in the collision map, every end of a line a
  node of the scene, and every row of \<open>node2lines\<close> made of keys.
\<close>

definition wf_scene :: "'p scene \<Rightarrow> bool" where
  "wf_scene st \<longleftrightarrow>
     distinct (map fst (lines st)) \<and>
     wf_coll (line_keys st) lines_connected (collisions st) \<and>
     untangled st = line_keys st - dom (collisions st) \<and>
     (\<forall>e\<in>line_keys st. fst e < length (nodes st) \<and> snd e < length (nodes st)) \<and>
     (\<forall>i<length (node2lines st). set (node2lines st ! i) \<subseteq> line_keys st)"

text \<open>Row \<open>i\<close> of \<open>node2lines\<close> lists the lines that end at node \<open>i\<close>.\<close>

definition incidence_ok :: "'p scene \<Rightarrow> bool" where
  "incidence_ok st \<longleftrightarrow>
     (\<forall>e\<in>line_keys st. fst e < length (node2lines st) \<and> snd e < length (node2lines st)) \<and>
     (\<forall>i<length (node2lines st).
        set (node2lines st ! i) = {e \<in> line_keys st. fst e = i \<or> snd e = i})"

text \<open>Every line item runs between the present positions of its two nodes.\<close>

definition lines_fresh :: "'p scene \<Rightarrow> bool" where
  "lines_fresh st \<longleftrightarrow>
     (\<forall>e\<in>line_keys st. map_of (lines st) e = Some (nodes st ! fst e, nodes st ! snd e))"

text \<open>The three together are kept by every mouse move.\<close>

definition scene_inv :: "'p scene \<Rightarrow> bool" where
  "scene_inv st \<longleftrightarrow> wf_scene st \<and> incidence_ok st \<and> lines_fresh st"

text \<open>
  The collision map is the one the line items give: the entry of \<open>k\<close> is the set of
  lines that cross \<open>k\<close> and are not connected to it.
\<close>

definition geo_scene :: "('p seg \<Rightarrow> 'p seg \<Rightarrow> bool) \<Rightarrow> 'p scene \<Rightarrow> bool" where
  "geo_scene cross st \<longleftrightarrow>
     collisions st = (\<lambda>k. norm_set (colliding_lines cross (lines st) k))"

section \<open>A concrete scene\<close>

text \<open>
  The triangle on three nodes, with positions \<open>0\<close>, \<open>1\<close>, \<open>2\<close> standing for three
  points, and a geometric test under which nothing crosses.
\<close>

definition triangle_scene :: "nat scene" where
  "triangle_scene =
     \<lparr>nodes = [0, 1, 2],
      lines = [((0, 1), (0, 1)), ((0, 2), (0, 2)), ((1, 2), (1, 2))],
      node2lines = [[(0, 1), (0, 2)], [(0, 1), (1, 2)], [(0, 2), (1, 2)]],
      collisions = Map.empty,
      untangled = {(0, 1), (0, 2), (1, 2)}\<rparr>"

definition never_cross :: "nat seg \<Rightarrow> nat seg \<Rightarrow> bool" where
  "never_cross s t = False"

text \<open>
  A graph on four nodes, the first triangle with one more triangle on the edge
  \<open>(0, 1)\<close>. Positions are points of a circle, named by their rank around it, so that
  two chords cross exactly when their ends alternate. With the nodes at \<open>0\<close>, \<open>1\<close>,
  \<open>2\<close>, \<open>3\<close> the lines \<open>(0, 2)\<close> and \<open>(1, 3)\<close> cross.
\<close>

definition quad_graph :: RandomGraph2 where
  "quad_graph =
     \<lparr>outside_edges = {(0, 3), (1, 3), (1, 2), (0, 2)}, node_idx = 4, limit = 4,
      edges = {(0, 1), (0, 2), (0, 3), (1, 2), (1, 3)}\<rparr>"

definition chord_cross :: "nat seg \<Rightarrow> nat seg \<Rightarrow> bool" where
  "chord_cross s t =
     (let a = min (fst s) (snd s); b = max (fst s) (snd s);
          c = min (fst t) (snd t); d = max (fst t) (snd t)
      in (a < c \<and> c < b \<and> b < d) \<or> (c < a \<and> a < d \<and> d < b))"

definition quad_scene :: "nat scene" where
  "quad_scene =
     \<lparr>nodes = [0, 1, 2, 3],
      lines = [((0, 1), (0, 1)), ((0, 2), (0, 2)), ((0, 3), (0, 3)), ((1, 2), (1, 2)),
               ((1, 3), (1, 3))],
      node2lines = [[(0, 1), (0, 2), (0, 3)], [(0, 1), (1, 2), (1, 3)], [(0, 2), (1, 2)],
                    [(0, 3), (1, 3)]],
      collisions = [(1, 3) \<mapsto> {(0, 2)}, (0, 2) \<mapsto> {(1, 3)}],
      untangled = {(0, 1), (0, 3), (1, 2)}\<rparr>"

text \<open>
  The same scene after node \<open>1\<close> is dragged to the point \<open>5\<close>: \<open>(0, 2)\<close> and
  \<open>(1, 3)\<close> no longer cross, \<open>(1, 2)\<close> and \<open>(0, 3)\<close> now do.
\<close>

definition quad_moved :: "nat scene" where
  "quad_moved =
     \<lparr>nodes = [0, 5, 2, 3],
      lines = [((0, 1), (0, 5)), ((0, 2), (0, 2)), ((0, 3), (0, 3)), ((1, 2), (5, 2)),
               ((1, 3), (5, 3))],
      node2lines = [[(0, 1), (0, 2), (0, 3)], [(0, 1), (1, 2), (1, 3)], [(0, 2), (1, 2)],
                    [(0, 3), (1, 3)]],
      collisions = [(1, 2) \<mapsto> {(0, 3)}, (0, 3) \<mapsto> {(1, 2)}],
      untangled = {(0, 1), (0, 2), (1, 3)}\<rparr>"



section \<open>The two inner loops of updateNode\<close>

lemma Collect_set_Cons:
  "{k \<in> set (x # xs). P k} = (if P x then insert x {k \<in> set xs. P k} else {k \<in> set xs. P k})"
  by auto

lemma Diff_single_Diff: "(U - {x}) - B = U - insert x B"
  by blast

lemma remove_old_char:
  assumes "distinct xs" "ab \<notin> set xs"
    "\<forall>xy\<in>set xs. xy \<notin> coll \<longrightarrow> ab \<in> collisions_get (collisions st) xy \<and> xy \<in> line_keys st"
  shows "\<exists>st'. remove_old ab coll xs st = (st', None) \<and> nodes st' = nodes st \<and>
           lines st' = lines st \<and> node2lines st' = node2lines st \<and>
           (\<forall>k. collisions st' k =
              (if k \<in> set xs \<and> k \<notin> coll then norm_set (collisions_get (collisions st) k - {ab})
               else collisions st k)) \<and>
           untangled st' = untangled st \<union>
             {k \<in> set xs. k \<notin> coll \<and> collisions_get (collisions st) k - {ab} = {}}"
  using assms
proof (induction xs arbitrary: st)
  case Nil
  then show ?case by simp
next
  case (Cons xy rest)
  show ?case
  proof (cases "xy \<in> coll")
    case True
    have "\<exists>st'. remove_old ab coll rest st = (st', None) \<and> nodes st' = nodes st \<and>
           lines st' = lines st \<and> node2lines st' = node2lines st \<and>
           (\<forall>k. collisions st' k =
              (if k \<in> set rest \<and> k \<notin> coll then norm_set (collisions_get (collisions st) k - {ab})
               else collisions st k)) \<and>
           untangled st' = untangled st \<union>
             {k \<in> set rest. k \<notin> coll \<and> collisions_get (collisions st) k - {ab} = {}}"
      using Cons.prems by (intro Cons.IH) auto
    then obtain st' where st': "remove_old ab coll rest st = (st', None)" "nodes st' = nodes st"
      "lines st' = lines st" "node2lines st' = node2lines st"
      "\<forall>k. collisions st' k =
              (if k \<in> set rest \<and> k \<notin> coll then norm_set (collisions_get (collisions st) k - {ab})
               else collisions st k)"
      "untangled st' = untangled st \<union>
             {k \<in> set rest. k \<notin> coll \<and> collisions_get (collisions st) k - {ab} = {}}"
      by blast
    show ?thesis
      apply (rule exI [of _ st'])
      using True st' by auto
  next
    case False
    from Cons.prems False obtain S where S: "collisions st xy = Some S" "ab \<in> S"
      by (auto simp: collisions_get_def split: option.splits)
    from Cons.prems False have "map_of (lines st) xy \<noteq> None"
      by (simp add: line_keys_def map_of_eq_None_iff)
    then obtain sg where key: "map_of (lines st) xy = Some sg" by blast
    from Cons.prems have ne: "xy \<noteq> ab" "xy \<notin> set rest" by auto
    define st1 where "st1 = (if S - {ab} = {}
        then st\<lparr>collisions := (collisions st)(xy := None), untangled := insert xy (untangled st)\<rparr>
        else st\<lparr>collisions := (collisions st)(xy \<mapsto> S - {ab})\<rparr>)"
    have step: "remove_old ab coll (xy # rest) st = remove_old ab coll rest st1"
      using False S key ne by (simp add: st1_def Let_def)
    have fr: "nodes st1 = nodes st" "lines st1 = lines st" "node2lines st1 = node2lines st"
      by (simp_all add: st1_def)
    have c1: "\<And>k. collisions st1 k = (if k = xy then norm_set (S - {ab}) else collisions st k)"
      by (simp add: st1_def norm_set_def)
    have u1: "untangled st1 = (if S - {ab} = {} then insert xy (untangled st) else untangled st)"
      by (simp add: st1_def)
    have co1: "\<And>k. k \<noteq> xy \<Longrightarrow> collisions_get (collisions st1) k = collisions_get (collisions st) k"
      by (simp add: collisions_get_def c1)
    have "\<exists>st'. remove_old ab coll rest st1 = (st', None) \<and> nodes st' = nodes st1 \<and>
           lines st' = lines st1 \<and> node2lines st' = node2lines st1 \<and>
           (\<forall>k. collisions st' k =
              (if k \<in> set rest \<and> k \<notin> coll then norm_set (collisions_get (collisions st1) k - {ab})
               else collisions st1 k)) \<and>
           untangled st' = untangled st1 \<union>
             {k \<in> set rest. k \<notin> coll \<and> collisions_get (collisions st1) k - {ab} = {}}"
    proof (intro Cons.IH)
      show "distinct rest" using Cons.prems by simp
      show "ab \<notin> set rest" using Cons.prems by simp
      show "\<forall>xy\<in>set rest. xy \<notin> coll \<longrightarrow>
              ab \<in> collisions_get (collisions st1) xy \<and> xy \<in> line_keys st1"
      proof (intro ballI impI)
        fix z assume z: "z \<in> set rest" "z \<notin> coll"
        then have "z \<noteq> xy" using ne by blast
        moreover have "ab \<in> collisions_get (collisions st) z \<and> z \<in> line_keys st"
          using Cons.prems(3) z by simp
        ultimately show "ab \<in> collisions_get (collisions st1) z \<and> z \<in> line_keys st1"
          using co1[of z] fr by (simp add: line_keys_def)
      qed
    qed
    then obtain st' where st': "remove_old ab coll rest st1 = (st', None)" "nodes st' = nodes st1"
      "lines st' = lines st1" "node2lines st' = node2lines st1"
      "\<forall>k. collisions st' k =
              (if k \<in> set rest \<and> k \<notin> coll then norm_set (collisions_get (collisions st1) k - {ab})
               else collisions st1 k)"
      "untangled st' = untangled st1 \<union>
             {k \<in> set rest. k \<notin> coll \<and> collisions_get (collisions st1) k - {ab} = {}}"
      by blast
    have cS: "collisions_get (collisions st) xy = S" using S by (simp add: collisions_get_def)
    show ?thesis
    proof (intro exI [of _ st'] conjI allI)
      show "remove_old ab coll (xy # rest) st = (st', None)" using step st' by simp
      show "nodes st' = nodes st" "lines st' = lines st" "node2lines st' = node2lines st"
        using st' fr by simp_all
      show "collisions st' k =
         (if k \<in> set (xy # rest) \<and> k \<notin> coll
          then norm_set (collisions_get (collisions st) k - {ab}) else collisions st k)" for k
        using st'(5)[rule_format, of k] c1[of k] co1[of k] ne False cS by auto
      have eqset: "{k \<in> set rest. k \<notin> coll \<and> collisions_get (collisions st1) k - {ab} = {}} =
          {k \<in> set rest. k \<notin> coll \<and> collisions_get (collisions st) k - {ab} = {}}"
      proof (rule set_eqI)
        fix k
        show "k \<in> {k \<in> set rest. k \<notin> coll \<and> collisions_get (collisions st1) k - {ab} = {}} \<longleftrightarrow>
          k \<in> {k \<in> set rest. k \<notin> coll \<and> collisions_get (collisions st) k - {ab} = {}}"
          using co1[of k] ne by (cases "k = xy") simp_all
      qed
      show "untangled st' = untangled st \<union>
          {k \<in> set (xy # rest). k \<notin> coll \<and> collisions_get (collisions st) k - {ab} = {}}"
      proof -
        have Qxy: "(xy \<notin> coll \<and> collisions_get (collisions st) xy - {ab} = {}) = (S - {ab} = {})"
          using False cS by simp
        show ?thesis
          unfolding Collect_set_Cons Qxy st'(6) u1 eqset
          by (cases "S - {ab} = {}") simp_all
      qed
    qed
  qed
qed

lemma tangle_char:
  assumes "distinct xs" "\<forall>xy\<in>set xs. collisions st xy = None \<longrightarrow> xy \<in> untangled st"
  shows "\<exists>st'. tangle ab xs st = (st', None) \<and> nodes st' = nodes st \<and>
           lines st' = lines st \<and> node2lines st' = node2lines st \<and>
           (\<forall>k. collisions st' k =
              (if k \<in> set xs then Some (insert ab (collisions_get (collisions st) k))
               else collisions st k)) \<and>
           untangled st' = untangled st - {k \<in> set xs. collisions st k = None}"
  using assms
proof (induction xs arbitrary: st)
  case Nil
  then show ?case by simp
next
  case (Cons xy rest)
  define st1 where "st1 = (case collisions st xy of
       None \<Rightarrow> st\<lparr>untangled := untangled st - {xy}, collisions := (collisions st)(xy \<mapsto> {ab})\<rparr>
     | Some S \<Rightarrow> st\<lparr>collisions := (collisions st)(xy \<mapsto> insert ab S)\<rparr>)"
  have step: "tangle ab (xy # rest) st = tangle ab rest st1"
    using Cons.prems by (simp add: st1_def split: option.splits)
  have fr: "nodes st1 = nodes st" "lines st1 = lines st" "node2lines st1 = node2lines st"
    by (simp_all add: st1_def split: option.splits)
  have c1: "\<And>k. collisions st1 k =
      (if k = xy then Some (insert ab (collisions_get (collisions st) k)) else collisions st k)"
    by (simp add: st1_def collisions_get_def split: option.splits)
  have u1: "untangled st1 = (if collisions st xy = None then untangled st - {xy} else untangled st)"
    by (simp add: st1_def split: option.splits)
  have ne: "xy \<notin> set rest" using Cons.prems by simp
  have "\<exists>st'. tangle ab rest st1 = (st', None) \<and> nodes st' = nodes st1 \<and>
           lines st' = lines st1 \<and> node2lines st' = node2lines st1 \<and>
           (\<forall>k. collisions st' k =
              (if k \<in> set rest then Some (insert ab (collisions_get (collisions st1) k))
               else collisions st1 k)) \<and>
           untangled st' = untangled st1 - {k \<in> set rest. collisions st1 k = None}"
  proof (intro Cons.IH)
    show "distinct rest" using Cons.prems by simp
    show "\<forall>xy\<in>set rest. collisions st1 xy = None \<longrightarrow> xy \<in> untangled st1"
    proof (intro ballI impI)
      fix z assume z: "z \<in> set rest" "collisions st1 z = None"
      then have "z \<noteq> xy" using ne by blast
      then show "z \<in> untangled st1"
        using Cons.prems(2) z c1[of z] u1 by simp
    qed
  qed
  then obtain st' where st': "tangle ab rest st1 = (st', None)" "nodes st' = nodes st1"
      "lines st' = lines st1" "node2lines st' = node2lines st1"
      "\<forall>k. collisions st' k =
              (if k \<in> set rest then Some (insert ab (collisions_get (collisions st1) k))
               else collisions st1 k)"
      "untangled st' = untangled st1 - {k \<in> set rest. collisions st1 k = None}"
    by blast
  show ?case
  proof (intro exI [of _ st'] conjI allI)
    show "tangle ab (xy # rest) st = (st', None)" using step st' by simp
    show "nodes st' = nodes st" "lines st' = lines st" "node2lines st' = node2lines st"
      using st' fr by simp_all
    show "collisions st' k =
       (if k \<in> set (xy # rest) then Some (insert ab (collisions_get (collisions st) k))
        else collisions st k)" for k
      using st'(5)[rule_format, of k] c1[of k] ne by (auto simp: collisions_get_def)
    have eqset: "{k \<in> set rest. collisions st1 k = None} = {k \<in> set rest. collisions st k = None}"
    proof (rule set_eqI)
      fix k
      show "k \<in> {k \<in> set rest. collisions st1 k = None} \<longleftrightarrow>
          k \<in> {k \<in> set rest. collisions st k = None}"
        using c1[of k] ne by (cases "k = xy") simp_all
    qed
    show "untangled st' = untangled st - {k \<in> set (xy # rest). collisions st k = None}"
      unfolding Collect_set_Cons st'(6) u1 eqset
      by (cases "collisions st xy") (simp_all add: Diff_single_Diff)
  qed
qed

section \<open>One step on a well-formed collision map\<close>

lemma collisions_get_norm [simp]: "collisions_get (\<lambda>k. norm_set (f k)) k = f k"
  by (simp add: collisions_get_def norm_set_def)

lemma norm_set_None [simp]: "norm_set S = None \<longleftrightarrow> S = {}"
  by (simp add: norm_set_def)

lemma norm_set_not_Some_empty [simp]: "norm_set S \<noteq> Some {}"
  by (simp add: norm_set_def)

lemma collisions_get_step:
  "collisions_get (step_coll ab coll c) k =
     (if k = ab then coll else collisions_get c k - {ab} \<union> (if k \<in> coll then {ab} else {}))"
  by (simp add: step_coll_def collisions_get_def norm_set_def)

lemma wf_coll_None: "wf_coll K conn c \<Longrightarrow> c k = None \<longleftrightarrow> collisions_get c k = {}"
  by (cases "c k") (auto simp: wf_coll_def collisions_get_def)

lemma wf_coll_norm: "wf_coll K conn c \<Longrightarrow> c k = norm_set (collisions_get c k)"
  by (cases "c k") (auto simp: wf_coll_def collisions_get_def norm_set_def)

lemma wf_coll_sym: "wf_coll K conn c \<Longrightarrow> x \<in> collisions_get c k \<Longrightarrow> k \<in> collisions_get c x"
  unfolding wf_coll_def by blast

lemma wf_coll_in: "wf_coll K conn c \<Longrightarrow> x \<in> collisions_get c k \<Longrightarrow> x \<in> K \<and> k \<in> K"
  unfolding wf_coll_def by blast

lemma wf_coll_conn: "wf_coll K conn c \<Longrightarrow> x \<in> collisions_get c k \<Longrightarrow> \<not> conn x k"
  unfolding wf_coll_def by blast

lemma step_coll_wf:
  assumes wf: "wf_coll K conn c" and "ab \<in> K" "coll \<subseteq> K" "ab \<notin> coll"
    and nc: "\<forall>x\<in>coll. \<not> conn x ab \<and> \<not> conn ab x"
  shows "wf_coll K conn (step_coll ab coll c)"
  unfolding wf_coll_def
proof (intro conjI allI impI)
  fix k show "step_coll ab coll c k \<noteq> Some {}"
    by (simp add: step_coll_def)
next
  fix k x assume x: "x \<in> collisions_get (step_coll ab coll c) k"
  note s = wf_coll_sym [OF wf] and i = wf_coll_in [OF wf] and n = wf_coll_conn [OF wf]
  show "k \<in> K" using x assms(2,3) i [of _ k] by (auto simp: collisions_get_step split: if_splits)
  show "x \<in> K" using x assms(2,3) i [of x k] by (auto simp: collisions_get_step split: if_splits)
  show "\<not> conn x k" using x nc n [of x k] by (auto simp: collisions_get_step split: if_splits)
  show "k \<in> collisions_get (step_coll ab coll c) x"
    using x assms(4) s [of x k] by (auto simp: collisions_get_step split: if_splits)
qed

lemma tangled_algebra:
  fixes c :: "'a \<rightharpoonup> 'a set"
  assumes wf: "wf_coll K conn c"
    and U: "U = K - dom c" and abK: "ab \<in> K"
    and ab_old: "ab \<notin> collisions_get c ab"
    and ab_coll: "ab \<notin> coll" and ne: "coll \<noteq> {}"
    and c2: "\<And>k. c2 k = (if k \<in> collisions_get c ab \<and> k \<notin> coll
                         then norm_set (collisions_get c k - {ab}) else c k)"
    and U2: "U2 = U \<union> {k \<in> collisions_get c ab. k \<notin> coll \<and> collisions_get c k - {ab} = {}}"
    and c4: "\<And>k. c4 k = (if k \<in> coll then Some (insert ab (collisions_get (c2(ab \<mapsto> coll)) k))
                         else (c2(ab \<mapsto> coll)) k)"
    and U4: "U4 = (U2 - {ab}) - {k \<in> coll. (c2(ab \<mapsto> coll)) k = None}"
  shows "c4 = step_coll ab coll c" and "U4 = K - dom c4"
proof -
  note sym = wf_coll_sym [OF wf] and nrm = wf_coll_norm [OF wf] and non = wf_coll_None [OF wf]
    and inK = wf_coll_in [OF wf]
  show eq: "c4 = step_coll ab coll c"
  proof (rule ext)
    fix k
    show "c4 k = step_coll ab coll c k"
    proof (cases "k = ab")
      case True
      then show ?thesis using ab_coll ne by (simp add: c4 step_coll_def norm_set_def)
    next
      case kab: False
      show ?thesis
      proof (cases "k \<in> coll")
        case True
        have "collisions_get (c2(ab \<mapsto> coll)) k = collisions_get c k"
          using kab True by (simp add: collisions_get_def c2)
        moreover have "collisions_get c k - {ab} \<union> {ab} = insert ab (collisions_get c k)"
          by blast
        ultimately show ?thesis using kab True
          by (simp add: c4 step_coll_def norm_set_def)
      next
        case False
        show ?thesis
        proof (cases "k \<in> collisions_get c ab")
          case True
          then show ?thesis using kab False by (simp add: c4 c2 step_coll_def)
        next
          case nold: False
          then have "ab \<notin> collisions_get c k" using sym [of ab k] by blast
          then have "collisions_get c k - {ab} = collisions_get c k" by blast
          then show ?thesis using kab False nold nrm [of k] by (simp add: c4 c2 step_coll_def)
        qed
      qed
    qed
  qed
  have c4None: "\<And>e. c4 e = None \<longleftrightarrow> e \<noteq> ab \<and> e \<notin> coll \<and> collisions_get c e \<subseteq> {ab}"
    unfolding eq using ne by (auto simp: step_coll_def)
  have T: "\<And>e. e \<in> coll \<Longrightarrow> (c2(ab \<mapsto> coll)) e = None \<longleftrightarrow> collisions_get c e = {}"
    using ab_coll non by (auto simp: c2)
  show "U4 = K - dom c4"
  proof (rule set_eqI)
    fix e
    have "e \<in> U4 \<longleftrightarrow>
        ((e \<in> K \<and> collisions_get c e = {}) \<or>
         (e \<in> collisions_get c ab \<and> e \<notin> coll \<and> collisions_get c e \<subseteq> {ab})) \<and>
        e \<noteq> ab \<and> \<not> (e \<in> coll \<and> collisions_get c e = {})"
      unfolding U4 U2 U using T [of e] non [of e] by (auto simp: dom_def)
    also have "\<dots> \<longleftrightarrow> e \<in> K \<and> e \<noteq> ab \<and> e \<notin> coll \<and> collisions_get c e \<subseteq> {ab}"
      using inK [of e ab] sym [of ab e] by blast
    also have "\<dots> \<longleftrightarrow> e \<in> K - dom c4"
      using c4None [of e] by (auto simp: dom_def)
    finally show "e \<in> U4 \<longleftrightarrow> e \<in> K - dom c4" .
  qed
qed

lemma untangled_algebra:
  fixes c :: "'a \<rightharpoonup> 'a set"
  assumes wf: "wf_coll K conn c"
    and U: "U = K - dom c" and abK: "ab \<in> K"
    and ab_old: "ab \<notin> collisions_get c ab"
    and c2: "\<And>k. c2 k = (if k \<in> collisions_get c ab
                         then norm_set (collisions_get c k - {ab}) else c k)"
    and U2: "U2 = U \<union> {k \<in> collisions_get c ab. collisions_get c k - {ab} = {}}"
    and c4: "c4 = (if ab \<in> dom c2 then c2(ab := None) else c2)"
    and U4: "U4 = (if ab \<in> dom c2 then insert ab U2 else U2)"
  shows "c4 = step_coll ab {} c" and "U4 = K - dom c4"
proof -
  note sym = wf_coll_sym [OF wf] and nrm = wf_coll_norm [OF wf] and non = wf_coll_None [OF wf]
    and inK = wf_coll_in [OF wf]
  have c4k: "\<And>k. c4 k = (if k = ab then None else c2 k)"
    unfolding c4 by (auto simp: dom_def)
  show eq: "c4 = step_coll ab {} c"
  proof (rule ext)
    fix k
    show "c4 k = step_coll ab {} c k"
    proof (cases "k = ab")
      case True
      then show ?thesis by (simp add: c4k step_coll_def norm_set_def)
    next
      case kab: False
      show ?thesis
      proof (cases "k \<in> collisions_get c ab")
        case True
        then show ?thesis using kab by (simp add: c4k c2 step_coll_def)
      next
        case nold: False
        then have "ab \<notin> collisions_get c k" using sym [of ab k] by blast
        then have "collisions_get c k - {ab} = collisions_get c k" by blast
        then show ?thesis using kab nold nrm [of k] by (simp add: c4k c2 step_coll_def)
      qed
    qed
  qed
  have c4None: "\<And>e. c4 e = None \<longleftrightarrow> e = ab \<or> collisions_get c e \<subseteq> {ab}"
    unfolding eq by (auto simp: step_coll_def)
  have ab2: "ab \<in> dom c2 \<longleftrightarrow> collisions_get c ab \<noteq> {}"
    using ab_old non [of ab] by (auto simp: c2 dom_def)
  show "U4 = K - dom c4"
  proof (rule set_eqI)
    fix e
    have "e \<in> U4 \<longleftrightarrow>
        (e = ab \<and> collisions_get c ab \<noteq> {}) \<or> (e \<in> K \<and> collisions_get c e = {}) \<or>
         (e \<in> collisions_get c ab \<and> collisions_get c e \<subseteq> {ab})"
      unfolding U4 U2 U ab2 using non [of e] by (auto simp: dom_def)
    also have "\<dots> \<longleftrightarrow> e \<in> K \<and> (e = ab \<or> collisions_get c e \<subseteq> {ab})"
      using inK [of e ab] sym [of ab e] abK by blast
    also have "\<dots> \<longleftrightarrow> e \<in> K - dom c4"
      using c4None [of e] by (auto simp: dom_def)
    finally show "e \<in> U4 \<longleftrightarrow> e \<in> K - dom c4" .
  qed
qed

section \<open>Connected lines and colliding lines\<close>

lemma lines_connected_distinct:
  "lines_connected l ab \<longleftrightarrow> \<not> distinct [fst l, snd l, fst ab, snd ab]"
proof -
  have "length (remdups [fst l, snd l, fst ab, snd ab]) \<le> 4"
    using length_remdups_leq [of "[fst l, snd l, fst ab, snd ab]"] by simp
  moreover have "length (remdups [fst l, snd l, fst ab, snd ab]) = 4 \<longleftrightarrow>
      distinct [fst l, snd l, fst ab, snd ab]"
    using length_remdups_eq [of "[fst l, snd l, fst ab, snd ab]"]
      remdups_id_iff_distinct [of "[fst l, snd l, fst ab, snd ab]"] by simp
  ultimately show ?thesis
    unfolding lines_connected_def by linarith
qed

lemma lines_connected_refl: "lines_connected e e"
  by (simp add: lines_connected_distinct)

lemma lines_connected_sym: "lines_connected l ab = lines_connected ab l"
  by (auto simp: lines_connected_distinct)

lemma coll_of_iff:
  assumes "distinct (map fst ls)"
  shows "l \<in> colliding_lines cross ls ab \<longleftrightarrow>
     (\<exists>s t. map_of ls ab = Some s \<and> map_of ls l = Some t \<and> l \<noteq> ab \<and> cross s t \<and>
            \<not> lines_connected l ab)"
proof (cases "map_of ls ab")
  case None
  then show ?thesis by (simp add: colliding_lines_def collidingItems_def)
next
  case (Some s)
  have "l \<in> colliding_lines cross ls ab \<longleftrightarrow>
      (\<exists>t. (l, t) \<in> set ls \<and> l \<noteq> ab \<and> cross s t) \<and> \<not> lines_connected l ab"
    using Some by (force simp: colliding_lines_def collidingItems_def)
  also have "\<dots> \<longleftrightarrow> (\<exists>t. map_of ls l = Some t \<and> l \<noteq> ab \<and> cross s t \<and> \<not> lines_connected l ab)"
    using assms by (auto simp: map_of_eq_Some_iff)
  finally show ?thesis using Some by simp
qed

lemma coll_of_keys: "colliding_lines cross ls ab \<subseteq> fst ` set ls"
  by (auto simp: colliding_lines_def collidingItems_def split: option.splits)

lemma coll_of_not_connected: "x \<in> colliding_lines cross ls ab \<Longrightarrow> \<not> lines_connected x ab"
  by (simp add: colliding_lines_def)

lemma coll_of_irrefl: "ab \<notin> colliding_lines cross ls ab"
  using coll_of_not_connected [of ab cross ls ab] lines_connected_refl by blast

lemma keys_update:
  "k \<in> fst ` set ls \<Longrightarrow> map fst (AList.update k v ls) = map fst ls"
  by (simp add: update_keys)

lemma keys_set_update:
  "k \<in> fst ` set ls \<Longrightarrow> fst ` set (AList.update k v ls) = fst ` set ls"
  using keys_update [of k ls v] by (metis list.set_map)

section \<open>One edge of updateNode\<close>

lemma update_edge_char:
  assumes wf: "wf_scene st" and so: "set_order iter" and abK: "ab \<in> line_keys st"
  defines "ls1 \<equiv> AList.update ab (nodes st ! fst ab, nodes st ! snd ab) (lines st)"
  shows "\<exists>st'. update_edge iter cross ab st = (st', None) \<and> nodes st' = nodes st \<and>
           node2lines st' = node2lines st \<and> lines st' = ls1 \<and>
           collisions st' = step_coll ab (colliding_lines cross ls1 ab) (collisions st) \<and>
           untangled st' = line_keys st - dom (collisions st')"
proof -
  define c where "c = collisions st"
  define K where "K = line_keys st"
  define coll where "coll = colliding_lines cross ls1 ab"
  define old where "old = collisions_get c ab"
  define st1 where "st1 = st\<lparr>lines := ls1\<rparr>"
  have wfc: "wf_coll K lines_connected c"
    and U: "untangled st = K - dom c"
    and rng: "fst ab < length (nodes st)" "snd ab < length (nodes st)"
    using wf abK by (auto simp: wf_scene_def K_def c_def)
  note sym = wf_coll_sym [OF wfc] and inK = wf_coll_in [OF wfc] and cn = wf_coll_conn [OF wfc]
  have finK: "finite K" by (simp add: K_def line_keys_def)
  have "map_of (lines st) ab \<noteq> None"
    using abK by (simp add: line_keys_def map_of_eq_None_iff)
  then obtain sg where sg: "map_of (lines st) ab = Some sg" by blast
  have K1: "line_keys st1 = K"
    using abK keys_set_update [of ab "lines st"] by (simp add: st1_def line_keys_def K_def ls1_def)
  have collK: "coll \<subseteq> K"
    using coll_of_keys [of cross ls1 ab] K1 by (simp add: coll_def st1_def line_keys_def)
  have ab_coll: "ab \<notin> coll" by (simp add: coll_def coll_of_irrefl)
  have oldK: "old \<subseteq> K" using inK unfolding old_def by blast
  have ab_old: "ab \<notin> old"
    using cn [of ab ab] lines_connected_refl by (auto simp: old_def)
  have fin: "finite old" "finite coll"
    using finK oldK collK by (auto intro: finite_subset)
  have xs: "set (iter old) = old" "distinct (iter old)"
    and ys: "set (iter coll) = coll" "distinct (iter coll)"
    using so fin by (simp_all add: set_order_def)
  have "\<exists>st'. remove_old ab coll (iter old) st1 = (st', None) \<and> nodes st' = nodes st1 \<and>
           lines st' = lines st1 \<and> node2lines st' = node2lines st1 \<and>
           (\<forall>k. collisions st' k =
              (if k \<in> set (iter old) \<and> k \<notin> coll
               then norm_set (collisions_get (collisions st1) k - {ab})
               else collisions st1 k)) \<and>
           untangled st' = untangled st1 \<union>
             {k \<in> set (iter old). k \<notin> coll \<and> collisions_get (collisions st1) k - {ab} = {}}"
  proof (rule remove_old_char)
    show "distinct (iter old)" by (rule xs)
    show "ab \<notin> set (iter old)" using ab_old xs by simp
    show "\<forall>xy\<in>set (iter old). xy \<notin> coll \<longrightarrow>
        ab \<in> collisions_get (collisions st1) xy \<and> xy \<in> line_keys st1"
    proof (intro ballI impI)
      fix xy assume "xy \<in> set (iter old)"
      then have "xy \<in> collisions_get c ab" using xs by (simp add: old_def)
      then show "ab \<in> collisions_get (collisions st1) xy \<and> xy \<in> line_keys st1"
        using sym [of xy ab] inK [of xy ab] K1 by (simp add: st1_def c_def)
    qed
  qed
  then obtain st2 where st2: "remove_old ab coll (iter old) st1 = (st2, None)"
      "nodes st2 = nodes st" "lines st2 = ls1" "node2lines st2 = node2lines st"
    and c2: "\<And>k. collisions st2 k =
              (if k \<in> collisions_get c ab \<and> k \<notin> coll
               then norm_set (collisions_get c k - {ab}) else c k)"
    and U2: "untangled st2 = untangled st \<union>
             {k \<in> collisions_get c ab. k \<notin> coll \<and> collisions_get c k - {ab} = {}}"
    unfolding xs by (auto simp: st1_def c_def old_def)
  have unf: "update_edge iter cross ab st =
      (if coll \<noteq> {} then
         tangle ab (iter coll)
           (st2\<lparr>collisions := (collisions st2)(ab \<mapsto> coll),
                untangled := untangled st2 - {ab}\<rparr>)
       else if ab \<in> dom (collisions st2) then
         (st2\<lparr>collisions := (collisions st2)(ab := None),
              untangled := insert ab (untangled st2)\<rparr>, None)
       else (st2, None))"
    using sg rng st2(1)
    by (simp add: update_edge_def nth_py_def Let_def coll_def ls1_def st1_def old_def c_def)
  show ?thesis
  proof (cases "coll = {}")
    case True
    define st4 where "st4 = (if ab \<in> dom (collisions st2)
        then st2\<lparr>collisions := (collisions st2)(ab := None),
                 untangled := insert ab (untangled st2)\<rparr> else st2)"
    have res: "update_edge iter cross ab st = (st4, None)"
      unfolding unf using True by (simp add: st4_def)
    have c4: "collisions st4 =
        (if ab \<in> dom (collisions st2) then (collisions st2)(ab := None) else collisions st2)"
      and U4: "untangled st4 =
        (if ab \<in> dom (collisions st2) then insert ab (untangled st2) else untangled st2)"
      and fr: "nodes st4 = nodes st" "node2lines st4 = node2lines st" "lines st4 = ls1"
      using st2 by (simp_all add: st4_def)
    have c2': "\<And>k. collisions st2 k =
              (if k \<in> collisions_get c ab then norm_set (collisions_get c k - {ab}) else c k)"
      using c2 True by simp
    have U2': "untangled st2 = untangled st \<union>
             {k \<in> collisions_get c ab. collisions_get c k - {ab} = {}}"
      using U2 True by simp
    have abK': "ab \<in> K" using abK by (simp add: K_def)
    have ab_old': "ab \<notin> collisions_get c ab" using ab_old by (simp add: old_def)
    have "collisions st4 = step_coll ab {} c" and "untangled st4 = K - dom (collisions st4)"
      using untangled_algebra [OF wfc U abK' ab_old' c2' U2' c4 U4] by simp_all
    then show ?thesis
      using res fr True by (auto simp: coll_def c_def K_def)
  next
    case False
    define st3 where "st3 = st2\<lparr>collisions := (collisions st2)(ab \<mapsto> coll),
                    untangled := untangled st2 - {ab}\<rparr>"
    have "\<exists>st'. tangle ab (iter coll) st3 = (st', None) \<and> nodes st' = nodes st3 \<and>
           lines st' = lines st3 \<and> node2lines st' = node2lines st3 \<and>
           (\<forall>k. collisions st' k =
              (if k \<in> set (iter coll) then Some (insert ab (collisions_get (collisions st3) k))
               else collisions st3 k)) \<and>
           untangled st' = untangled st3 - {k \<in> set (iter coll). collisions st3 k = None}"
    proof (rule tangle_char)
      show "distinct (iter coll)" by (rule ys)
      show "\<forall>xy\<in>set (iter coll). collisions st3 xy = None \<longrightarrow> xy \<in> untangled st3"
      proof (intro ballI impI)
        fix xy assume a: "xy \<in> set (iter coll)" "collisions st3 xy = None"
        then have xc: "xy \<in> coll" using ys by simp
        then have ne: "xy \<noteq> ab" using ab_coll by blast
        then have "c xy = None" using a(2) xc c2 [of xy] by (simp add: st3_def)
        then have "xy \<in> untangled st" using U xc collK by (auto simp: dom_def)
        then show "xy \<in> untangled st3" using U2 ne by (simp add: st3_def)
      qed
    qed
    then obtain st4 where st4: "tangle ab (iter coll) st3 = (st4, None)"
        "nodes st4 = nodes st" "lines st4 = ls1" "node2lines st4 = node2lines st"
      and c4: "\<And>k. collisions st4 k =
              (if k \<in> coll then Some (insert ab (collisions_get ((collisions st2)(ab \<mapsto> coll)) k))
               else ((collisions st2)(ab \<mapsto> coll)) k)"
      and U4: "untangled st4 = (untangled st2 - {ab}) -
                 {k \<in> coll. ((collisions st2)(ab \<mapsto> coll)) k = None}"
      unfolding ys using st2 by (auto simp: st3_def)
    have res: "update_edge iter cross ab st = (st4, None)"
      unfolding unf using False st4(1) by (simp add: st3_def)
    have abK': "ab \<in> K" using abK by (simp add: K_def)
    have ab_old': "ab \<notin> collisions_get c ab" using ab_old by (simp add: old_def)
    have "collisions st4 = step_coll ab coll c" and "untangled st4 = K - dom (collisions st4)"
      using tangled_algebra [OF wfc U abK' ab_old' ab_coll False c2 U2 c4 U4] by simp_all
    then show ?thesis
      using res st4 by (auto simp: coll_def c_def K_def)
  qed
qed

lemma update_edge_wf:
  assumes wf: "wf_scene st" and so: "set_order iter" and abK: "ab \<in> line_keys st"
  shows "\<exists>st'. update_edge iter cross ab st = (st', None) \<and> wf_scene st' \<and>
           nodes st' = nodes st \<and> node2lines st' = node2lines st \<and>
           line_keys st' = line_keys st \<and>
           lines st' = AList.update ab (nodes st ! fst ab, nodes st ! snd ab) (lines st) \<and>
           collisions st' = step_coll ab (colliding_lines cross (lines st') ab) (collisions st)"
proof -
  define ls1 where "ls1 = AList.update ab (nodes st ! fst ab, nodes st ! snd ab) (lines st)"
  obtain st' where st': "update_edge iter cross ab st = (st', None)" "nodes st' = nodes st"
      "node2lines st' = node2lines st" "lines st' = ls1"
      "collisions st' = step_coll ab (colliding_lines cross ls1 ab) (collisions st)"
      "untangled st' = line_keys st - dom (collisions st')"
    using update_edge_char [OF wf so abK, of cross] unfolding ls1_def by blast
  have keys: "line_keys st' = line_keys st"
    using abK keys_set_update [of ab "lines st"] st'(4) by (simp add: line_keys_def ls1_def)
  have dist: "distinct (map fst (lines st'))"
    using wf abK keys_update [of ab "lines st"] st'(4)
    by (simp add: wf_scene_def ls1_def line_keys_def)
  have wfc: "wf_coll (line_keys st) lines_connected (collisions st)"
    using wf by (simp add: wf_scene_def)
  have collK: "colliding_lines cross ls1 ab \<subseteq> line_keys st"
    using coll_of_keys [of cross ls1 ab] keys st'(4) by (simp add: line_keys_def)
  have nc: "\<forall>x\<in>colliding_lines cross ls1 ab. \<not> lines_connected x ab \<and> \<not> lines_connected ab x"
    using coll_of_not_connected lines_connected_sym by blast
  have "wf_coll (line_keys st) lines_connected (collisions st')"
    unfolding st'(5) by (rule step_coll_wf [OF wfc abK collK coll_of_irrefl nc])
  then have "wf_scene st'"
    using wf st' keys dist unfolding wf_scene_def by simp
  then show ?thesis
    using st' keys unfolding ls1_def by (intro exI [of _ st']) simp
qed



lemma index_py_Inr:
  assumes "index_py xs idx = Inr r"
  shows "\<exists>i<length xs. r = xs ! i"
proof (cases "0 \<le> idx")
  case True
  then have "nat idx < length xs \<and> r = xs ! nat idx"
    using assms by (auto simp: index_py_def split: if_splits)
  then show ?thesis by blast
next
  case False
  then have "nat (int (length xs) + idx) < length xs \<and> r = xs ! nat (int (length xs) + idx)"
    using assms by (auto simp: index_py_def split: if_splits)
  then show ?thesis by blast
qed

section \<open>The collision map follows the line items\<close>

lemma setdefault_twice:
  fixes c :: "'a \<rightharpoonup> 'a set"
  assumes "x \<noteq> ab"
  shows "setdefault_add x ab (setdefault_add ab x c) =
     (\<lambda>k. if k = ab then Some (insert x (collisions_get c ab))
          else if k = x then Some (insert ab (collisions_get c x)) else c k)"
  using assms by (auto simp: setdefault_add_def collisions_get_def fun_eq_iff)

lemma fold_collide:
  fixes c :: "'a \<rightharpoonup> 'a set"
  assumes "ab \<notin> set xs"
  shows "fold (\<lambda>l c. if P l then c else setdefault_add l ab (setdefault_add ab l c)) xs c =
     (\<lambda>k. if k = ab then (if {l \<in> set xs. \<not> P l} = {} then c ab
                          else Some (collisions_get c ab \<union> {l \<in> set xs. \<not> P l}))
          else if k \<in> set xs \<and> \<not> P k then Some (insert ab (collisions_get c k)) else c k)"
  using assms
proof (induction xs arbitrary: c)
  case Nil
  then show ?case by (auto simp: fun_eq_iff)
next
  case (Cons x xs)
  then have ne: "x \<noteq> ab" and nin: "ab \<notin> set xs" by auto
  show ?case
  proof (cases "P x")
    case True
    then have "{l \<in> set (x # xs). \<not> P l} = {l \<in> set xs. \<not> P l}" by auto
    then show ?thesis using True Cons.IH [OF nin, of c] by (auto simp: fun_eq_iff)
  next
    case False
    define c1 where "c1 = setdefault_add x ab (setdefault_add ab x c)"
    have c1: "c1 = (\<lambda>k. if k = ab then Some (insert x (collisions_get c ab))
          else if k = x then Some (insert ab (collisions_get c x)) else c k)"
      unfolding c1_def by (rule setdefault_twice [OF ne])
    have g1: "collisions_get c1 ab = insert x (collisions_get c ab)"
      "collisions_get c1 x = insert ab (collisions_get c x)"
      "\<And>k. k \<noteq> ab \<Longrightarrow> k \<noteq> x \<Longrightarrow> collisions_get c1 k = collisions_get c k"
      using ne by (simp_all add: c1 collisions_get_def)
    have v1: "c1 ab = Some (insert x (collisions_get c ab))"
      "c1 x = Some (insert ab (collisions_get c x))"
      "\<And>k. k \<noteq> ab \<Longrightarrow> k \<noteq> x \<Longrightarrow> c1 k = c k"
      using ne by (simp_all add: c1)
    have N: "{l \<in> set (x # xs). \<not> P l} = insert x {l \<in> set xs. \<not> P l}"
      using False by auto
    have "fold (\<lambda>l c. if P l then c else setdefault_add l ab (setdefault_add ab l c)) (x # xs) c
        = fold (\<lambda>l c. if P l then c else setdefault_add l ab (setdefault_add ab l c)) xs c1"
      using False by (simp add: c1_def)
    also have "\<dots> = (\<lambda>k. if k = ab then (if {l \<in> set xs. \<not> P l} = {} then c1 ab
                          else Some (collisions_get c1 ab \<union> {l \<in> set xs. \<not> P l}))
          else if k \<in> set xs \<and> \<not> P k then Some (insert ab (collisions_get c1 k)) else c1 k)"
      by (rule Cons.IH [OF nin])
    also have "\<dots> = (\<lambda>k. if k = ab then (if {l \<in> set (x # xs). \<not> P l} = {} then c ab
                          else Some (collisions_get c ab \<union> {l \<in> set (x # xs). \<not> P l}))
          else if k \<in> set (x # xs) \<and> \<not> P k then Some (insert ab (collisions_get c k)) else c k)"
    proof (rule ext)
      fix k
      show "(if k = ab then (if {l \<in> set xs. \<not> P l} = {} then c1 ab
                          else Some (collisions_get c1 ab \<union> {l \<in> set xs. \<not> P l}))
          else if k \<in> set xs \<and> \<not> P k then Some (insert ab (collisions_get c1 k)) else c1 k) =
        (if k = ab then (if {l \<in> set (x # xs). \<not> P l} = {} then c ab
                          else Some (collisions_get c ab \<union> {l \<in> set (x # xs). \<not> P l}))
          else if k \<in> set (x # xs) \<and> \<not> P k then Some (insert ab (collisions_get c k)) else c k)"
      proof (cases "k = ab")
        case True
        then show ?thesis unfolding N using g1(1) v1(1) by auto
      next
        case kab: False
        show ?thesis
        proof (cases "k = x")
          case True
          then show ?thesis using kab ne False g1(2) v1(2) by auto
        next
          case kx: False
          then show ?thesis using kab g1(3) [of k] v1(3) [of k] by auto
        qed
      qed
    qed
    finally show ?thesis .
  qed
qed

lemma collidingItems_not_self: "ab \<notin> set (collidingItems cross ls ab)"
  by (auto simp: collidingItems_def split: option.splits)

lemma wf_coll_outside:
  assumes "wf_coll K conn c" "ab \<notin> K"
  shows "c ab = None" and "ab \<notin> collisions_get c k"
proof -
  show "c ab = None"
  proof (rule ccontr)
    assume "c ab \<noteq> None"
    then have "collisions_get c ab \<noteq> {}" using wf_coll_None [OF assms(1), of ab] by simp
    then obtain x where "x \<in> collisions_get c ab" by blast
    then show False using wf_coll_in [OF assms(1), of x ab] assms(2) by simp
  qed
  show "ab \<notin> collisions_get c k"
    using wf_coll_in [OF assms(1), of ab k] assms(2) by blast
qed

lemma wf_coll_mono: "wf_coll K conn c \<Longrightarrow> K \<subseteq> K' \<Longrightarrow> wf_coll K' conn c"
  unfolding wf_coll_def by blast

lemma init_collide_step:
  assumes wf: "wf_coll K lines_connected c" and abK: "ab \<notin> K"
  shows "init_collide ab (collidingItems cross ls1 ab) c =
           step_coll ab (colliding_lines cross ls1 ab) c"
proof (rule ext)
  fix k
  define N where "N = colliding_lines cross ls1 ab"
  have N: "{l \<in> set (collidingItems cross ls1 ab). \<not> lines_connected l ab} = N"
    by (auto simp: N_def colliding_lines_def)
  have inN: "(k \<in> set (collidingItems cross ls1 ab) \<and> \<not> lines_connected k ab) = (k \<in> N)"
    by (auto simp: N_def colliding_lines_def)
  have f: "init_collide ab (collidingItems cross ls1 ab) c k =
     (if k = ab then (if N = {} then c ab else Some (collisions_get c ab \<union> N))
      else if k \<in> N then Some (insert ab (collisions_get c k)) else c k)"
    unfolding init_collide_def
      fold_collide [OF collidingItems_not_self, of "\<lambda>l. lines_connected l ab"] N inN ..
  have out: "c ab = None" "ab \<notin> collisions_get c k"
    using wf_coll_outside [OF wf abK] by simp_all
  then have g: "collisions_get c ab = {}" "collisions_get c k - {ab} = collisions_get c k"
    by (simp_all add: collisions_get_def)
  have "collisions_get c k \<union> {ab} = insert ab (collisions_get c k)" by blast
  then show "init_collide ab (collidingItems cross ls1 ab) c k =
      step_coll ab (colliding_lines cross ls1 ab) c k"
    unfolding f step_coll_def N_def [symmetric] g
    using out(1) wf_coll_norm [OF wf, of k] by (simp add: norm_set_def)
qed

lemma geo_step:
  assumes d: "distinct (map fst ls)" and d1: "distinct (map fst ls1)"
    and sym: "\<forall>s t. cross s t = cross t s"
    and m: "map_of ls1 = (map_of ls)(ab \<mapsto> sg)"
  shows "step_coll ab (colliding_lines cross ls1 ab) (\<lambda>k. norm_set (colliding_lines cross ls k)) =
           (\<lambda>k. norm_set (colliding_lines cross ls1 k))"
proof (rule ext)
  fix k
  show "step_coll ab (colliding_lines cross ls1 ab) (\<lambda>k. norm_set (colliding_lines cross ls k)) k =
      norm_set (colliding_lines cross ls1 k)"
  proof (cases "k = ab")
    case True
    then show ?thesis by (simp add: step_coll_def)
  next
    case kab: False
    have "colliding_lines cross ls k - {ab} \<union>
        (if k \<in> colliding_lines cross ls1 ab then {ab} else {}) = colliding_lines cross ls1 k"
    proof (rule set_eqI)
      fix l
      show "l \<in> colliding_lines cross ls k - {ab} \<union>
          (if k \<in> colliding_lines cross ls1 ab then {ab} else {}) \<longleftrightarrow>
          l \<in> colliding_lines cross ls1 k"
      proof (cases "l = ab")
        case True
        have "k \<in> colliding_lines cross ls1 ab \<longleftrightarrow> ab \<in> colliding_lines cross ls1 k"
          unfolding coll_of_iff [OF d1] using sym lines_connected_sym [of k ab] by auto
        then show ?thesis using True by simp
      next
        case False
        have "l \<in> colliding_lines cross ls k \<longleftrightarrow> l \<in> colliding_lines cross ls1 k"
          unfolding coll_of_iff [OF d1] coll_of_iff [OF d] m using kab False by simp
        then show ?thesis using False by simp
      qed
    qed
    then show ?thesis using kab by (simp add: step_coll_def)
  qed
qed

section \<open>What init builds\<close>

lemma getEdges_loop_total:
  assumes "\<forall>e\<in>set es. fst e < length n2e \<and> snd e < length n2e"
  shows "\<exists>r. getEdges_loop es n2e = Inr r"
  using assms
proof (induction es arbitrary: n2e)
  case Nil
  then show ?case by simp
next
  case (Cons e es)
  obtain a b where e: "e = (a, b)" by (cases e)
  define n2e2 where "n2e2 = (n2e[a := n2e ! a @ [(a, b)]])[b := (n2e[a := n2e ! a @ [(a, b)]]) ! b @ [(a, b)]]"
  have len: "length n2e2 = length n2e" by (simp add: n2e2_def)
  have "getEdges_loop (e # es) n2e = getEdges_loop es n2e2"
    using Cons.prems by (simp add: e n2e2_def Let_def)
  moreover have "\<exists>r. getEdges_loop es n2e2 = Inr r"
    using Cons.prems len by (intro Cons.IH) simp
  ultimately show ?case by simp
qed

lemma getEdges_loop_char:
  assumes "getEdges_loop es n2e = Inr r"
  shows "length r = length n2e \<and>
         (\<forall>e\<in>set es. fst e < length n2e \<and> snd e < length n2e) \<and>
         (\<forall>i<length n2e. set (r ! i) = set (n2e ! i) \<union> {e \<in> set es. fst e = i \<or> snd e = i})"
  using assms
proof (induction es arbitrary: n2e)
  case Nil
  then show ?case by simp
next
  case (Cons e es)
  obtain a b where e: "e = (a, b)" by (cases e)
  define n2e2 where "n2e2 = (n2e[a := n2e ! a @ [(a, b)]])[b := (n2e[a := n2e ! a @ [(a, b)]]) ! b @ [(a, b)]]"
  have ab: "a < length n2e" "b < length n2e"
    using Cons.prems by (auto simp: e Let_def split: if_splits)
  have len: "length n2e2 = length n2e" by (simp add: n2e2_def)
  have step: "getEdges_loop es n2e2 = Inr r"
    using Cons.prems ab by (simp add: e n2e2_def Let_def)
  have row: "\<And>i. i < length n2e \<Longrightarrow>
      set (n2e2 ! i) = set (n2e ! i) \<union> (if a = i \<or> b = i then {e} else {})"
    using ab by (auto simp: n2e2_def e nth_list_update)
  from Cons.IH [OF step]
  have ih: "length r = length n2e2" "\<forall>e\<in>set es. fst e < length n2e2 \<and> snd e < length n2e2"
    "\<forall>i<length n2e2. set (r ! i) = set (n2e2 ! i) \<union> {e \<in> set es. fst e = i \<or> snd e = i}"
    by simp_all
  show ?case
  proof (intro conjI allI impI ballI)
    show "length r = length n2e" using ih(1) len by simp
  next
    fix x assume "x \<in> set (e # es)"
    then show "fst x < length n2e" "snd x < length n2e"
      using ih(2) len ab e by auto
  next
    fix i assume i: "i < length n2e"
    have "{x \<in> set (e # es). fst x = i \<or> snd x = i} =
        (if a = i \<or> b = i then {e} else {}) \<union> {x \<in> set es. fst x = i \<or> snd x = i}"
      by (auto simp: e)
    then show "set (r ! i) = set (n2e ! i) \<union> {x \<in> set (e # es). fst x = i \<or> snd x = i}"
      using ih(3) i len row [OF i] by (simp add: Un_assoc)
  qed
qed

lemma init_loop_ranges:
  assumes "init_loop cross ns es acc = Inr r"
  shows "\<forall>e\<in>set es. fst e < length ns \<and> snd e < length ns"
  using assms
proof (induction es arbitrary: acc)
  case Nil
  then show ?case by simp
next
  case (Cons ab rest)
  obtain ls c where acc: "acc = (ls, c)" by (cases acc)
  have rng: "fst ab < length ns" "snd ab < length ns"
    using Cons.prems unfolding acc by (auto simp: nth_py_def split: if_splits sum.splits)
  then obtain acc1 where "init_loop cross ns rest acc1 = Inr r"
    using Cons.prems unfolding acc by (auto simp: nth_py_def Let_def)
  from Cons.IH [OF this] rng show ?case by simp
qed

lemma init_loop_char:
  assumes rng: "\<forall>e\<in>set es. fst e < length ns \<and> snd e < length ns"
    and d: "distinct (map fst ls)" and wf: "wf_coll (fst ` set ls) lines_connected c"
    and des: "distinct es" and new: "set es \<inter> fst ` set ls = {}"
  shows "\<exists>ls' c'. init_loop cross ns es (ls, c) = Inr (ls', c') \<and>
           distinct (map fst ls') \<and> fst ` set ls' = fst ` set ls \<union> set es \<and>
           wf_coll (fst ` set ls') lines_connected c' \<and>
           (\<forall>e. map_of ls' e =
              (if e \<in> set es then Some (ns ! fst e, ns ! snd e) else map_of ls e)) \<and>
           ((\<forall>s t. cross s t = cross t s) \<longrightarrow>
            c = (\<lambda>k. norm_set (colliding_lines cross ls k)) \<longrightarrow>
            c' = (\<lambda>k. norm_set (colliding_lines cross ls' k)))"
  using assms
proof (induction es arbitrary: ls c)
  case Nil
  show ?case
  proof (intro exI [of _ ls] exI [of _ c] conjI allI impI)
    show "init_loop cross ns [] (ls, c) = Inr (ls, c)" by simp
    show "distinct (map fst ls)" by (rule Nil.prems(2))
    show "fst ` set ls = fst ` set ls \<union> set []" by simp
    show "wf_coll (fst ` set ls) lines_connected c" by (rule Nil.prems(3))
    show "map_of ls e = (if e \<in> set [] then Some (ns ! fst e, ns ! snd e) else map_of ls e)" for e
      by simp
    show "c = (\<lambda>k. norm_set (colliding_lines cross ls k))"
      if "c = (\<lambda>k. norm_set (colliding_lines cross ls k))" using that .
  qed
next
  case (Cons ab rest)
  define sg where "sg = (ns ! fst ab, ns ! snd ab)"
  define ls1 where "ls1 = AList.update ab sg ls"
  define c1 where "c1 = init_collide ab (collidingItems cross ls1 ab) c"
  let ?K = "fst ` set ls"
  have abK: "ab \<notin> ?K" using Cons.prems(5) by auto
  have step: "init_loop cross ns (ab # rest) (ls, c) = init_loop cross ns rest (ls1, c1)"
    using Cons.prems(1) by (simp add: nth_py_def Let_def ls1_def sg_def c1_def)
  have d1: "distinct (map fst ls1)"
    unfolding ls1_def by (rule distinct_update [OF Cons.prems(2)])
  have K1: "fst ` set ls1 = insert ab ?K" by (simp add: ls1_def dom_update)
  have m1: "map_of ls1 = (map_of ls)(ab \<mapsto> sg)" by (simp add: ls1_def update_conv')
  have c1: "c1 = step_coll ab (colliding_lines cross ls1 ab) c"
    unfolding c1_def by (rule init_collide_step [OF Cons.prems(3) abK])
  have wf': "wf_coll (insert ab ?K) lines_connected c"
    using Cons.prems(3) by (rule wf_coll_mono) blast
  have collK: "colliding_lines cross ls1 ab \<subseteq> insert ab ?K"
    using coll_of_keys [of cross ls1 ab] K1 by simp
  have nc: "\<forall>x\<in>colliding_lines cross ls1 ab. \<not> lines_connected x ab \<and> \<not> lines_connected ab x"
    using coll_of_not_connected lines_connected_sym by blast
  have wf1: "wf_coll (fst ` set ls1) lines_connected c1"
    unfolding c1 K1 by (rule step_coll_wf [OF wf' _ collK coll_of_irrefl nc]) simp
  have geo1: "(\<forall>s t. cross s t = cross t s) \<longrightarrow>
      c = (\<lambda>k. norm_set (colliding_lines cross ls k)) \<longrightarrow>
      c1 = (\<lambda>k. norm_set (colliding_lines cross ls1 k))"
  proof (intro impI)
    assume s: "\<forall>s t. cross s t = cross t s"
      and cg: "c = (\<lambda>k. norm_set (colliding_lines cross ls k))"
    show "c1 = (\<lambda>k. norm_set (colliding_lines cross ls1 k))"
      unfolding c1 cg by (rule geo_step [OF Cons.prems(2) d1 s m1])
  qed
  have "\<exists>ls' c'. init_loop cross ns rest (ls1, c1) = Inr (ls', c') \<and>
           distinct (map fst ls') \<and> fst ` set ls' = fst ` set ls1 \<union> set rest \<and>
           wf_coll (fst ` set ls') lines_connected c' \<and>
           (\<forall>e. map_of ls' e =
              (if e \<in> set rest then Some (ns ! fst e, ns ! snd e) else map_of ls1 e)) \<and>
           ((\<forall>s t. cross s t = cross t s) \<longrightarrow>
            c1 = (\<lambda>k. norm_set (colliding_lines cross ls1 k)) \<longrightarrow>
            c' = (\<lambda>k. norm_set (colliding_lines cross ls' k)))"
  proof (rule Cons.IH [OF _ d1 wf1])
    show "\<forall>e\<in>set rest. fst e < length ns \<and> snd e < length ns" using Cons.prems(1) by simp
    show "distinct rest" using Cons.prems(4) by simp
    show "set rest \<inter> fst ` set ls1 = {}" using Cons.prems(4,5) K1 by auto
  qed
  then obtain ls' c' where r: "init_loop cross ns rest (ls1, c1) = Inr (ls', c')"
      "distinct (map fst ls')" "fst ` set ls' = fst ` set ls1 \<union> set rest"
      "wf_coll (fst ` set ls') lines_connected c'"
      "\<forall>e. map_of ls' e =
              (if e \<in> set rest then Some (ns ! fst e, ns ! snd e) else map_of ls1 e)"
      "(\<forall>s t. cross s t = cross t s) \<longrightarrow>
            c1 = (\<lambda>k. norm_set (colliding_lines cross ls1 k)) \<longrightarrow>
            c' = (\<lambda>k. norm_set (colliding_lines cross ls' k))"
    by (elim exE conjE) (rule that; assumption)
  show ?case
  proof (intro exI [of _ ls'] exI [of _ c'] conjI allI)
    show "init_loop cross ns (ab # rest) (ls, c) = Inr (ls', c')" using step r(1) by simp
    show "distinct (map fst ls')" by (rule r(2))
    show "fst ` set ls' = fst ` set ls \<union> set (ab # rest)" using r(3) K1 by auto
    show "wf_coll (fst ` set ls') lines_connected c'" by (rule r(4))
    show "map_of ls' e =
        (if e \<in> set (ab # rest) then Some (ns ! fst e, ns ! snd e) else map_of ls e)" for e
      using r(5) [rule_format, of e] m1 by (simp add: sg_def)
    show "(\<forall>s t. cross s t = cross t s) \<longrightarrow>
        c = (\<lambda>k. norm_set (colliding_lines cross ls k)) \<longrightarrow>
        c' = (\<lambda>k. norm_set (colliding_lines cross ls' k))"
    proof (intro impI)
      assume s: "\<forall>s t. cross s t = cross t s"
        and cg: "c = (\<lambda>k. norm_set (colliding_lines cross ls k))"
      show "c' = (\<lambda>k. norm_set (colliding_lines cross ls' k))"
        by (rule r(6) [THEN mp, OF s, THEN mp, OF geo1 [THEN mp, OF s, THEN mp, OF cg]])
    qed
  qed
qed

lemma colliding_lines_Nil: "colliding_lines cross [] k = {}"
  by (simp add: colliding_lines_def collidingItems_def)

lemma wf_coll_empty: "wf_coll K conn Map.empty"
  by (simp add: wf_coll_def collisions_get_def)

lemma init_parts:
  assumes "init iter cross g ns = Inr st"
  shows "\<exists>n2e ls c. getEdges_loop (iter (edges g)) (replicate (node_idx g) []) = Inr n2e \<and>
           init_loop cross ns (iter (edges g)) ([], Map.empty) = Inr (ls, c) \<and>
           st = \<lparr>nodes = ns, lines = ls, node2lines = n2e, collisions = c,
                 untangled = edges g - dom c\<rparr>"
  using assms by (auto simp: init_def getEdges_def split: sum.splits)

lemma init_char:
  fixes ns :: "'p list"
  assumes so: "set_order iter" and fin: "finite (edges g)"
    and ok: "init iter cross g ns = Inr st"
  shows "wf_scene st" and "line_keys st = edges g" and "nodes st = ns"
    and "length (node2lines st) = node_idx g" and "incidence_ok st" and "lines_fresh st"
    and "(\<forall>s t. cross s t = cross t s) \<longrightarrow> geo_scene cross st"
proof -
  from init_parts [OF ok] obtain n2e ls c where
    ge: "getEdges_loop (iter (edges g)) (replicate (node_idx g) []) = Inr n2e"
    and il: "init_loop cross ns (iter (edges g)) ([], Map.empty) = Inr (ls, c)"
    and st: "st = \<lparr>nodes = ns, lines = ls, node2lines = n2e, collisions = c,
                 untangled = edges g - dom c\<rparr>"
    by (elim exE conjE)
  have it: "set (iter (edges g)) = edges g" "distinct (iter (edges g))"
    using so fin by (simp_all add: set_order_def)
  have rng: "\<forall>e\<in>set (iter (edges g)). fst e < length ns \<and> snd e < length ns"
    by (rule init_loop_ranges [OF il])
  have d0: "distinct (map fst ([] :: (edge \<times> 'p seg) list))" by simp
  have w0: "wf_coll (fst ` set ([] :: (edge \<times> 'p seg) list)) lines_connected
      (Map.empty :: edge \<rightharpoonup> edge set)"
    by (rule wf_coll_empty)
  have n0: "set (iter (edges g)) \<inter> fst ` set ([] :: (edge \<times> 'p seg) list) = {}" by simp
  note init_loop_char [OF rng d0 w0 it(2) n0, where cross = cross]
  then obtain ls' c' where r0: "init_loop cross ns (iter (edges g)) ([], Map.empty) = Inr (ls', c')"
    and r: "distinct (map fst ls')" "fst ` set ls' = fst ` set ([] :: (edge \<times> 'p seg) list) \<union> set (iter (edges g))"
      "wf_coll (fst ` set ls') lines_connected c'"
      "\<forall>e. map_of ls' e =
              (if e \<in> set (iter (edges g)) then Some (ns ! fst e, ns ! snd e) else map_of ([] :: (edge \<times> 'p seg) list) e)"
      "(\<forall>s t. cross s t = cross t s) \<longrightarrow>
            Map.empty = (\<lambda>k. norm_set (colliding_lines cross ([] :: (edge \<times> 'p seg) list) k)) \<longrightarrow>
            c' = (\<lambda>k. norm_set (colliding_lines cross ls' k))"
    by (elim exE conjE) (rule that; assumption)
  have eq: "ls' = ls" "c' = c" using r0 il by simp_all
  have keys: "fst ` set ls = edges g" using r(2) it(1) unfolding eq by simp
  from getEdges_loop_char [OF ge]
  have n2e: "length n2e = node_idx g"
    "\<forall>e\<in>edges g. fst e < node_idx g \<and> snd e < node_idx g"
    "\<forall>i<node_idx g. set (n2e ! i) = {e \<in> edges g. fst e = i \<or> snd e = i}"
    unfolding it(1) by simp_all
  show "line_keys st = edges g" using keys by (simp add: st line_keys_def)
  show "nodes st = ns" by (simp add: st)
  show "length (node2lines st) = node_idx g" using n2e(1) by (simp add: st)
  show "incidence_ok st"
    using n2e keys by (simp add: incidence_ok_def st line_keys_def)
  show "lines_fresh st"
    unfolding lines_fresh_def
  proof
    fix e assume "e \<in> line_keys st"
    then have "e \<in> set (iter (edges g))" using keys it(1) by (simp add: st line_keys_def)
    then show "map_of (lines st) e = Some (nodes st ! fst e, nodes st ! snd e)"
      using r(4) [rule_format, of e] unfolding eq by (simp add: st)
  qed
  have sub: "\<forall>i<length n2e. set (n2e ! i) \<subseteq> edges g"
    using n2e(1,3) by auto
  show "wf_scene st"
    unfolding wf_scene_def
  proof (intro conjI)
    show "distinct (map fst (lines st))" using r(1) unfolding eq by (simp add: st)
    show "wf_coll (line_keys st) lines_connected (collisions st)"
      using r(3) unfolding eq by (simp add: st line_keys_def)
    show "untangled st = line_keys st - dom (collisions st)"
      using keys by (simp add: st line_keys_def)
    show "\<forall>e\<in>line_keys st. fst e < length (nodes st) \<and> snd e < length (nodes st)"
      using rng keys it(1) by (simp add: st line_keys_def)
    show "\<forall>i<length (node2lines st). set (node2lines st ! i) \<subseteq> line_keys st"
      using sub keys by (simp add: st line_keys_def)
  qed
  show "(\<forall>s t. cross s t = cross t s) \<longrightarrow> geo_scene cross st"
  proof
    assume s: "\<forall>s t. cross s t = cross t s"
    have e0: "Map.empty = (\<lambda>k. norm_set (colliding_lines cross ([] :: (edge \<times> 'p seg) list) k))"
      by (simp add: colliding_lines_Nil norm_set_def)
    have "c' = (\<lambda>k. norm_set (colliding_lines cross ls' k))"
      by (rule r(5) [THEN mp, OF s, THEN mp, OF e0])
    then show "geo_scene cross st" unfolding eq by (simp add: geo_scene_def st)
  qed
qed

lemma init_total:
  fixes ns :: "'p list"
  assumes so: "set_order iter" and fin: "finite (edges g)"
    and r1: "\<forall>e\<in>edges g. fst e < node_idx g \<and> snd e < node_idx g"
    and r2: "\<forall>e\<in>edges g. fst e < length ns \<and> snd e < length ns"
  shows "\<exists>st. init iter cross g ns = Inr st"
proof -
  have it: "set (iter (edges g)) = edges g" "distinct (iter (edges g))"
    using so fin by (simp_all add: set_order_def)
  have "\<forall>e\<in>set (iter (edges g)).
      fst e < length (replicate (node_idx g) ([] :: edge list)) \<and>
      snd e < length (replicate (node_idx g) ([] :: edge list))"
    using r1 it(1) by simp
  from getEdges_loop_total [OF this]
  obtain n2e where ge: "getEdges_loop (iter (edges g)) (replicate (node_idx g) []) = Inr n2e"
    by blast
  have rng: "\<forall>e\<in>set (iter (edges g)). fst e < length ns \<and> snd e < length ns"
    using r2 it(1) by simp
  have d0: "distinct (map fst ([] :: (edge \<times> 'p seg) list))" by simp
  have w0: "wf_coll (fst ` set ([] :: (edge \<times> 'p seg) list)) lines_connected
      (Map.empty :: edge \<rightharpoonup> edge set)"
    by (rule wf_coll_empty)
  have n0: "set (iter (edges g)) \<inter> fst ` set ([] :: (edge \<times> 'p seg) list) = {}" by simp
  note init_loop_char [OF rng d0 w0 it(2) n0, where cross = cross]
  then obtain ls c where "init_loop cross ns (iter (edges g)) ([], Map.empty) = Inr (ls, c)"
    by (elim exE conjE)
  then show ?thesis using ge by (simp add: init_def getEdges_def)
qed

section \<open>What a mouse move keeps\<close>

lemma update_edges_geo:
  assumes "wf_scene st" "set_order iter" "set es \<subseteq> line_keys st"
  shows "\<exists>st'. update_edges iter cross es st = (st', None) \<and> wf_scene st' \<and>
           nodes st' = nodes st \<and> node2lines st' = node2lines st \<and>
           line_keys st' = line_keys st \<and>
           (\<forall>e. map_of (lines st') e =
              (if e \<in> set es then Some (nodes st ! fst e, nodes st ! snd e)
               else map_of (lines st) e)) \<and>
           ((\<forall>s t. cross s t = cross t s) \<longrightarrow> geo_scene cross st \<longrightarrow> geo_scene cross st')"
  using assms
proof (induction es arbitrary: st)
  case Nil
  show ?case
  proof (intro exI [of _ st] conjI allI impI)
    show "update_edges iter cross [] st = (st, None)" by simp
    show "wf_scene st" by (rule Nil.prems(1))
    show "map_of (lines st) e =
        (if e \<in> set [] then Some (nodes st ! fst e, nodes st ! snd e) else map_of (lines st) e)"
      for e by simp
    show "geo_scene cross st" if "geo_scene cross st" using that .
  qed simp_all
next
  case (Cons ab rest)
  then have abK: "ab \<in> line_keys st" by simp
  define sg where "sg = (nodes st ! fst ab, nodes st ! snd ab)"
  from update_edge_wf [OF Cons.prems(1,2) abK, of cross]
  obtain st1 where st1: "update_edge iter cross ab st = (st1, None)" "wf_scene st1"
      "nodes st1 = nodes st" "node2lines st1 = node2lines st" "line_keys st1 = line_keys st"
      "lines st1 = AList.update ab sg (lines st)"
      "collisions st1 = step_coll ab (colliding_lines cross (lines st1) ab) (collisions st)"
    unfolding sg_def by (elim exE conjE)
  have d: "distinct (map fst (lines st))" using Cons.prems(1) by (simp add: wf_scene_def)
  have d1: "distinct (map fst (lines st1))" using st1(2) by (simp add: wf_scene_def)
  have m1: "map_of (lines st1) = (map_of (lines st))(ab \<mapsto> sg)"
    by (simp add: st1(6) update_conv')
  have geo1: "(\<forall>s t. cross s t = cross t s) \<longrightarrow> geo_scene cross st \<longrightarrow> geo_scene cross st1"
  proof (intro impI)
    assume s: "\<forall>s t. cross s t = cross t s" and g: "geo_scene cross st"
    have cg: "collisions st = (\<lambda>k. norm_set (colliding_lines cross (lines st) k))"
      using g by (simp add: geo_scene_def)
    show "geo_scene cross st1"
      unfolding geo_scene_def st1(7) cg by (rule geo_step [OF d d1 s m1])
  qed
  have sub: "set rest \<subseteq> line_keys st1" using Cons.prems(3) st1(5) by simp
  note Cons.IH [OF st1(2) Cons.prems(2) sub]
  then obtain st' where r: "update_edges iter cross rest st1 = (st', None)" "wf_scene st'"
      "nodes st' = nodes st1" "node2lines st' = node2lines st1" "line_keys st' = line_keys st1"
      "\<forall>e. map_of (lines st') e =
              (if e \<in> set rest then Some (nodes st1 ! fst e, nodes st1 ! snd e)
               else map_of (lines st1) e)"
      "(\<forall>s t. cross s t = cross t s) \<longrightarrow> geo_scene cross st1 \<longrightarrow> geo_scene cross st'"
    by (elim exE conjE) (rule that; assumption)
  show ?case
  proof (intro exI [of _ st'] conjI allI)
    show "update_edges iter cross (ab # rest) st = (st', None)" using st1(1) r(1) by simp
    show "wf_scene st'" by (rule r(2))
    show "nodes st' = nodes st" using r(3) st1(3) by simp
    show "node2lines st' = node2lines st" using r(4) st1(4) by simp
    show "line_keys st' = line_keys st" using r(5) st1(5) by simp
    show "map_of (lines st') e =
        (if e \<in> set (ab # rest) then Some (nodes st ! fst e, nodes st ! snd e)
         else map_of (lines st) e)" for e
      using r(6) [rule_format, of e] m1 st1(3) by (simp add: sg_def)
    show "(\<forall>s t. cross s t = cross t s) \<longrightarrow> geo_scene cross st \<longrightarrow> geo_scene cross st'"
    proof (intro impI)
      assume s: "\<forall>s t. cross s t = cross t s" and g: "geo_scene cross st"
      show "geo_scene cross st'"
        by (rule r(7) [THEN mp, OF s, THEN mp, OF geo1 [THEN mp, OF s, THEN mp, OF g]])
    qed
  qed
qed

lemma moved_wf:
  assumes "wf_scene st"
  shows "wf_scene (st\<lparr>nodes := (nodes st)[v := p]\<rparr>)"
  using assms by (simp add: wf_scene_def line_keys_def)

lemma mouseMoveEvent_char:
  assumes inv: "scene_inv st" and so: "set_order iter"
    and ix: "index_py (node2lines st) idx = Inr es"
  shows "\<exists>st'. mouseMoveEvent iter cross idx p st =
             (st', if lines st = [] then Inl ZeroDivisionError
                   else Inr (card (untangled st'), length (lines st'))) \<and>
           scene_inv st' \<and> line_keys st' = line_keys st \<and>
           node2lines st' = node2lines st \<and> length (nodes st') = length (nodes st) \<and>
           length (lines st') = length (lines st) \<and>
           ((\<forall>s t. cross s t = cross t s) \<longrightarrow> geo_scene cross st \<longrightarrow> geo_scene cross st')"
proof -
  define moved where "moved \<longleftrightarrow> 0 \<le> idx \<and> idx < int (length (nodes st))"
  define st0 where "st0 = (if moved then st\<lparr>nodes := (nodes st)[nat idx := p]\<rparr> else st)"
  have wf: "wf_scene st" and inc: "incidence_ok st" and fr: "lines_fresh st"
    using inv by (simp_all add: scene_inv_def)
  have wf0: "wf_scene st0" using wf moved_wf [OF wf] by (simp add: st0_def)
  have same: "lines st0 = lines st" "node2lines st0 = node2lines st"
    "collisions st0 = collisions st" "untangled st0 = untangled st"
    "length (nodes st0) = length (nodes st)" "line_keys st0 = line_keys st"
    by (simp_all add: st0_def line_keys_def)
  have mm: "mouseMoveEvent iter cross idx p st = updateNode iter cross idx st0"
    by (simp add: mouseMoveEvent_def st0_def moved_def)
  obtain i where i: "i < length (node2lines st)" "es = node2lines st ! i"
    using index_py_Inr [OF ix] by blast
  have esK: "set es \<subseteq> line_keys st0"
    using wf i same by (simp add: wf_scene_def)
  have keep: "nodes st0 ! fst e = nodes st ! fst e \<and> nodes st0 ! snd e = nodes st ! snd e"
    if e: "e \<in> line_keys st" "e \<notin> set es" for e
  proof (cases moved)
    case False
    then show ?thesis by (simp add: st0_def)
  next
    case True
    then have "es = node2lines st ! nat idx" "nat idx < length (node2lines st)"
      using ix by (auto simp: index_py_def moved_def split: if_splits)
    then have "set es = {e \<in> line_keys st. fst e = nat idx \<or> snd e = nat idx}"
      using inc by (simp add: incidence_ok_def)
    then have "fst e \<noteq> nat idx" "snd e \<noteq> nat idx" using e by auto
    then show ?thesis using True by (simp add: st0_def)
  qed
  note update_edges_geo [OF wf0 so esK, where cross = cross]
  then obtain st' where r: "update_edges iter cross es st0 = (st', None)" "wf_scene st'"
      "nodes st' = nodes st0" "node2lines st' = node2lines st0" "line_keys st' = line_keys st0"
      "\<forall>e. map_of (lines st') e =
              (if e \<in> set es then Some (nodes st0 ! fst e, nodes st0 ! snd e)
               else map_of (lines st0) e)"
      "(\<forall>s t. cross s t = cross t s) \<longrightarrow> geo_scene cross st0 \<longrightarrow> geo_scene cross st'"
    by (elim exE conjE) (rule that; assumption)
  have len: "length (lines st') = length (lines st)"
  proof -
    have "card (line_keys st') = length (lines st')"
      using r(2) distinct_card [of "map fst (lines st')"] by (simp add: wf_scene_def line_keys_def)
    moreover have "card (line_keys st) = length (lines st)"
      using wf distinct_card [of "map fst (lines st)"] by (simp add: wf_scene_def line_keys_def)
    ultimately show ?thesis using r(5) same(6) by simp
  qed
  have res: "mouseMoveEvent iter cross idx p st =
      (st', if lines st = [] then Inl ZeroDivisionError
            else Inr (card (untangled st'), length (lines st')))"
  proof -
    have "lines st' = [] \<longleftrightarrow> lines st = []" using len by (metis length_0_conv)
    then show ?thesis using ix r(1) unfolding mm by (simp add: updateNode_def same)
  qed
  have fresh: "lines_fresh st'"
    unfolding lines_fresh_def
  proof
    fix e assume "e \<in> line_keys st'"
    then have eK: "e \<in> line_keys st" using r(5) same(6) by simp
    show "map_of (lines st') e = Some (nodes st' ! fst e, nodes st' ! snd e)"
    proof (cases "e \<in> set es")
      case True
      then show ?thesis using r(6) [rule_format, of e] r(3) by simp
    next
      case False
      have "map_of (lines st) e = Some (nodes st ! fst e, nodes st ! snd e)"
        using fr eK by (simp add: lines_fresh_def)
      then show ?thesis
        using False r(6) [rule_format, of e] r(3) keep [OF eK False] same(1) by simp
    qed
  qed
  have inc': "incidence_ok st'"
    using inc r(4,5) same by (simp add: incidence_ok_def)
  have geo: "(\<forall>s t. cross s t = cross t s) \<longrightarrow> geo_scene cross st \<longrightarrow> geo_scene cross st'"
  proof (intro impI)
    assume s: "\<forall>s t. cross s t = cross t s" and g: "geo_scene cross st"
    have g0: "geo_scene cross st0" using g by (simp add: geo_scene_def same)
    show "geo_scene cross st'" by (rule r(7) [THEN mp, OF s, THEN mp, OF g0])
  qed
  show ?thesis
  proof (intro exI [of _ st'] conjI)
    show "mouseMoveEvent iter cross idx p st =
      (st', if lines st = [] then Inl ZeroDivisionError
            else Inr (card (untangled st'), length (lines st')))" by (rule res)
    show "scene_inv st'" using r(2) inc' fresh by (simp add: scene_inv_def)
    show "line_keys st' = line_keys st" using r(5) same by simp
    show "node2lines st' = node2lines st" using r(4) same by simp
    show "length (nodes st') = length (nodes st)" using r(3) same by simp
    show "length (lines st') = length (lines st)" by (rule len)
    show "(\<forall>s t. cross s t = cross t s) \<longrightarrow> geo_scene cross st \<longrightarrow> geo_scene cross st'"
      by (rule geo)
  qed
qed

lemma mouseMoveEvent_error:
  assumes "index_py (node2lines st) idx = Inl e"
  shows "snd (mouseMoveEvent iter cross idx p st) = Inl e"
  using assms by (simp add: mouseMoveEvent_def updateNode_def)

lemma mouseMoveEvent_inv:
  assumes inv: "scene_inv st" and so: "set_order iter"
    and ok: "mouseMoveEvent iter cross idx p st = (st', Inr r)"
  shows "scene_inv st'" and "line_keys st' = line_keys st"
    and "node2lines st' = node2lines st" and "length (nodes st') = length (nodes st)"
    and "lines st' \<noteq> []"
    and "(\<forall>s t. cross s t = cross t s) \<longrightarrow> geo_scene cross st \<longrightarrow> geo_scene cross st'"
proof -
  obtain es where ix: "index_py (node2lines st) idx = Inr es"
    using ok mouseMoveEvent_error [of st idx _ iter cross p]
    by (cases "index_py (node2lines st) idx") auto
  note mouseMoveEvent_char [OF inv so ix, where cross = cross and p = p]
  then obtain st2 where c: "mouseMoveEvent iter cross idx p st =
             (st2, if lines st = [] then Inl ZeroDivisionError
                   else Inr (card (untangled st2), length (lines st2)))"
      "scene_inv st2" "line_keys st2 = line_keys st"
      "node2lines st2 = node2lines st" "length (nodes st2) = length (nodes st)"
      "length (lines st2) = length (lines st)"
      "(\<forall>s t. cross s t = cross t s) \<longrightarrow> geo_scene cross st \<longrightarrow> geo_scene cross st2"
    by (elim exE conjE) (rule that; assumption)
  have eq: "st2 = st'" and ne: "lines st \<noteq> []"
    using c(1) ok by (auto split: if_splits)
  show "scene_inv st'" using c(2) eq by simp
  show "line_keys st' = line_keys st" using c(3) eq by simp
  show "node2lines st' = node2lines st" using c(4) eq by simp
  show "length (nodes st') = length (nodes st)" using c(5) eq by simp
  show "lines st' \<noteq> []" using c(6) ne eq by auto
  show "(\<forall>s t. cross s t = cross t s) \<longrightarrow> geo_scene cross st \<longrightarrow> geo_scene cross st'"
    using c(7) unfolding eq .
qed

lemma drags_inv:
  assumes "scene_inv st" "set_order iter" "drags iter cross ms st = Some st'"
  shows "scene_inv st' \<and> line_keys st' = line_keys st \<and> node2lines st' = node2lines st \<and>
         length (nodes st') = length (nodes st) \<and>
         ((\<forall>s t. cross s t = cross t s) \<longrightarrow> geo_scene cross st \<longrightarrow> geo_scene cross st')"
  using assms
proof (induction ms arbitrary: st)
  case Nil
  then have "st' = st" by simp
  then show ?case using Nil.prems(1) by simp
next
  case (Cons m ms)
  obtain idx p where m: "m = (idx, p)" by (cases m)
  obtain st1 r where st1: "mouseMoveEvent iter cross idx p st = (st1, Inr r)"
    and rest: "drags iter cross ms st1 = Some st'"
    using Cons.prems(3) unfolding m
    by (cases "mouseMoveEvent iter cross idx p st") (auto split: sum.splits)
  note a = mouseMoveEvent_inv [OF Cons.prems(1,2) st1]
  note b0 = Cons.IH [OF a(1) Cons.prems(2) rest]
  from b0 have b1: "scene_inv st'" by (elim conjE)
  from b0 have b2: "line_keys st' = line_keys st1" by (elim conjE)
  from b0 have b3: "node2lines st' = node2lines st1" by (elim conjE)
  from b0 have b4: "length (nodes st') = length (nodes st1)" by (elim conjE)
  from b0 have b5: "(\<forall>s t. cross s t = cross t s) \<longrightarrow> geo_scene cross st1 \<longrightarrow>
      geo_scene cross st'" by (elim conjE)
  note b = b1 b2 b3 b4 b5
  show ?case
  proof (intro conjI impI)
    show "scene_inv st'" by (rule b(1))
    show "line_keys st' = line_keys st" using b(2) a(2) by simp
    show "node2lines st' = node2lines st" using b(3) a(3) by simp
    show "length (nodes st') = length (nodes st)" using b(4) a(4) by simp
    assume s: "\<forall>s t. cross s t = cross t s" and g: "geo_scene cross st"
    show "geo_scene cross st'"
      by (rule b(5) [THEN mp, OF s, THEN mp, OF a(6) [THEN mp, OF s, THEN mp, OF g]])
  qed
qed

lemma wf_scene_dom:
  assumes "wf_scene st"
  shows "dom (collisions st) \<subseteq> line_keys st"
proof
  have wfc: "wf_coll (line_keys st) lines_connected (collisions st)"
    using assms by (simp add: wf_scene_def)
  fix k assume "k \<in> dom (collisions st)"
  then have "collisions st k \<noteq> None" by blast
  then have "collisions_get (collisions st) k \<noteq> {}"
    using wf_coll_None [OF wfc, of k] by simp
  then obtain x where "x \<in> collisions_get (collisions st) k" by blast
  then show "k \<in> line_keys st"
    using wf_coll_in [OF wfc, of x k] by simp
qed

lemma reachable_inv:
  fixes ns :: "'p list"
  assumes so: "set_order iter" and fin: "finite (edges g)"
    and i: "init iter cross g ns = Inr st0"
    and d: "drags iter cross ms st0 = Some st"
  shows "scene_inv st" and "line_keys st = edges g" and "length (node2lines st) = node_idx g"
    and "(\<forall>s t. cross s t = cross t s) \<longrightarrow> geo_scene cross st"
proof -
  note c = init_char [OF so fin i]
  have inv0: "scene_inv st0" using c(1,5,6) by (simp add: scene_inv_def)
  note r0 = drags_inv [OF inv0 so d]
  from r0 have r1: "scene_inv st" by (elim conjE)
  from r0 have r2: "line_keys st = line_keys st0" by (elim conjE)
  from r0 have r3: "node2lines st = node2lines st0" by (elim conjE)
  from r0 have r5: "(\<forall>s t. cross s t = cross t s) \<longrightarrow> geo_scene cross st0 \<longrightarrow>
      geo_scene cross st" by (elim conjE)
  show "scene_inv st" by (rule r1)
  show "line_keys st = edges g" using r2 c(2) by simp
  show "length (node2lines st) = node_idx g" using r3 c(4) by simp
  show "(\<forall>s t. cross s t = cross t s) \<longrightarrow> geo_scene cross st"
  proof
    assume s: "\<forall>s t. cross s t = cross t s"
    show "geo_scene cross st"
      by (rule r5 [THEN mp, OF s, THEN mp, OF c(7) [THEN mp, OF s]])
  qed
qed


lemma colliding_lines_cong:
  assumes d: "distinct (map fst ls)" and d': "distinct (map fst ls')"
    and m: "map_of ls = map_of ls'"
  shows "colliding_lines cross ls k = colliding_lines cross ls' k"
proof (rule set_eqI)
  fix l
  show "l \<in> colliding_lines cross ls k \<longleftrightarrow> l \<in> colliding_lines cross ls' k"
    unfolding coll_of_iff [OF d] coll_of_iff [OF d'] m ..
qed

section \<open>The concrete scenes, evaluated\<close>

lemma set_order_sorted_list_of_set: "set_order sorted_list_of_set"
  by (simp add: set_order_def)

lemma quad_edges_sorted: "sorted_list_of_set {(0::nat, 1::nat), (0, 2), (0, 3), (1, 2), (1, 3)} =
   [(0, 1), (0, 2), (0, 3), (1, 2), (1, 3)]"
  by code_simp

lemma quad_getEdges: "getEdges sorted_list_of_set quad_graph = Inr (edges quad_graph, node2lines quad_scene)"
  by code_simp

lemma quad_init: "init sorted_list_of_set chord_cross quad_graph [0, 1, 2, 3] = Inr quad_scene"
  apply (simp add: init_def quad_getEdges)
  apply (simp add: quad_graph_def quad_edges_sorted nth_py_def collidingItems_def init_collide_def lines_connected_def
      chord_cross_def setdefault_add_def collisions_get_def quad_scene_def insert_Diff_if)
  done

lemma quad_crossing_01: "colliding_lines chord_cross
     [((0, 1), (0, 5)), ((0, 2), (0, 2)), ((0, 3), (0, 3)), ((1, 2), (1, 2)), ((1, 3), (1, 3))]
     (0, 1) = {}"
  by code_simp

lemma quad_crossing_12: "colliding_lines chord_cross
     [((0, 1), (0, 5)), ((0, 2), (0, 2)), ((0, 3), (0, 3)), ((1, 2), (5, 2)), ((1, 3), (1, 3))]
     (1, 2) = {(0, 3)}"
  by code_simp

lemma quad_crossing_13: "colliding_lines chord_cross
     [((0, 1), (0, 5)), ((0, 2), (0, 2)), ((0, 3), (0, 3)), ((1, 2), (5, 2)), ((1, 3), (5, 3))]
     (1, 3) = {}"
  by code_simp

lemma quad_drag: "mouseMoveEvent sorted_list_of_set chord_cross 1 5 quad_scene = (quad_moved, Inr (3, 5))"
  apply (simp add: mouseMoveEvent_def updateNode_def index_py_def quad_scene_def
      update_edge_def nth_py_def collisions_get_def quad_crossing_01 quad_crossing_12 quad_crossing_13 Let_def quad_moved_def
      del: One_nat_def)
  apply auto
  done

lemma chord_cross_sym: "\<forall>s t. chord_cross s t = chord_cross t s"
  by (auto simp: chord_cross_def Let_def)

section \<open>checkVictory\<close>

text \<open>
  C10, as the code has it: \<open>checkVictory\<close> leaves the tracker state as it is and emits
  \<open>victory\<close> exactly when the collision map is empty, but it is not free of side effects:
  it emits \<open>refit\<close> first, on every call. (A Python dict is finite; \<open>len\<close> of an
  infinite map would be \<open>0\<close> in HOL.)
\<close>

theorem checkVictory_refit_then_victory:
  assumes "finite (dom (collisions st))"
  shows "fst (checkVictory st) = (if collisions st = Map.empty then [Refit, Victory] else [Refit])
         \<and> snd (checkVictory st) = st"
proof -
  have "card (dom (collisions st)) = 0 \<longleftrightarrow> collisions st = Map.empty"
    using assms by simp
  then show ?thesis
    by (simp add: checkVictory_def)
qed

theorem checkVictory_refit_then_victory_witness:
  "finite (dom (collisions triangle_scene)) \<and>
   fst (checkVictory triangle_scene) = [Refit, Victory] \<and>
   snd (checkVictory triangle_scene) = triangle_scene"
proof -
  have f: "finite (dom (collisions triangle_scene))"
    by (simp add: triangle_scene_def)
  have e: "collisions triangle_scene = Map.empty"
    by (simp add: triangle_scene_def)
  show ?thesis
    using f e checkVictory_refit_then_victory [OF f] by simp
qed

text \<open>
  C10 as the spec words it, a query with no side effect, fails: on the triangle, whose
  collision map is empty, the call emits \<open>refit\<close> besides \<open>victory\<close>.
\<close>

theorem checkVictory_pure_counterexample:
  "Refit \<in> set (fst (checkVictory triangle_scene))"
  by (simp add: checkVictory_def triangle_scene_def)

section \<open>updateNode on an index outside the node list\<close>

text \<open>
  C7, as the code has it. With \<open>N = len(self.node2lines)\<close>: an index \<open>idx \<ge> N\<close> or
  \<open>idx < -N\<close> raises \<open>IndexError\<close> at the list lookup, before any write, so the state
  is the one before the call (also through \<open>mouseMoveEvent\<close>, when the scene has no more
  nodes than rows in \<open>node2lines\<close>). An index \<open>-N \<le> idx < 0\<close> is not rejected: the
  lookup succeeds and yields row \<open>idx + N\<close>, the edges of that row are updated, and the
  call is the one for \<open>idx + N\<close>; whatever it raises then comes from the update of those
  edges or from the division by the number of lines, not from the lookup.
\<close>

theorem updateNode_outside_index:
  "((int (length (node2lines st)) \<le> idx \<or> idx < - int (length (node2lines st))) \<longrightarrow>
      updateNode iter cross idx st = (st, Inl IndexError) \<and>
      (length (nodes st) \<le> length (node2lines st) \<longrightarrow>
         mouseMoveEvent iter cross idx p st = (st, Inl IndexError))) \<and>
   ((- int (length (node2lines st)) \<le> idx \<and> idx < 0) \<longrightarrow>
      index_py (node2lines st) idx =
        Inr (node2lines st ! nat (idx + int (length (node2lines st)))) \<and>
      updateNode iter cross idx st =
        (case update_edges iter cross
                (node2lines st ! nat (idx + int (length (node2lines st)))) st of
           (st1, Some e) \<Rightarrow> (st1, Inl e)
         | (st1, None) \<Rightarrow>
             if length (lines st1) = 0 then (st1, Inl ZeroDivisionError)
             else (st1, Inr (card (untangled st1), length (lines st1)))) \<and>
      updateNode iter cross idx st =
        updateNode iter cross (idx + int (length (node2lines st))) st)"
proof (intro conjI impI)
  assume out: "int (length (node2lines st)) \<le> idx \<or> idx < - int (length (node2lines st))"
  then have ix: "index_py (node2lines st) idx = Inl IndexError"
    by (auto simp: index_py_def)
  then show "updateNode iter cross idx st = (st, Inl IndexError)"
    by (simp add: updateNode_def)
  assume "length (nodes st) \<le> length (node2lines st)"
  with out have "\<not> (0 \<le> idx \<and> idx < int (length (nodes st)))"
    by auto
  then have "mouseMoveEvent iter cross idx p st = updateNode iter cross idx st"
    unfolding mouseMoveEvent_def by (simp only: if_False)
  then show "mouseMoveEvent iter cross idx p st = (st, Inl IndexError)"
    using ix by (simp add: updateNode_def)
next
  assume neg: "- int (length (node2lines st)) \<le> idx \<and> idx < 0"
  then show row: "index_py (node2lines st) idx =
      Inr (node2lines st ! nat (idx + int (length (node2lines st))))"
    by (simp add: index_py_def add.commute)
  then show "updateNode iter cross idx st =
      (case update_edges iter cross
              (node2lines st ! nat (idx + int (length (node2lines st)))) st of
         (st1, Some e) \<Rightarrow> (st1, Inl e)
       | (st1, None) \<Rightarrow>
           if length (lines st1) = 0 then (st1, Inl ZeroDivisionError)
           else (st1, Inr (card (untangled st1), length (lines st1))))"
    by (simp only: updateNode_def sum.case)
  from neg have "index_py (node2lines st) idx =
      index_py (node2lines st) (idx + int (length (node2lines st)))"
    by (auto simp: index_py_def add.commute)
  then show "updateNode iter cross idx st =
      updateNode iter cross (idx + int (length (node2lines st))) st"
    by (simp add: updateNode_def)
qed

theorem updateNode_outside_index_witness:
  "int (length (node2lines triangle_scene)) \<le> 3 \<and>
   length (nodes triangle_scene) \<le> length (node2lines triangle_scene) \<and>
   updateNode sorted_list_of_set never_cross 3 triangle_scene = (triangle_scene, Inl IndexError) \<and>
   mouseMoveEvent sorted_list_of_set never_cross 3 7 triangle_scene =
     (triangle_scene, Inl IndexError) \<and>
   - int (length (node2lines triangle_scene)) \<le> - 1 \<and>
   index_py (node2lines triangle_scene) (- 1) = Inr [(0, 2), (1, 2)] \<and>
   updateNode sorted_list_of_set never_cross (- 1) triangle_scene =
     (triangle_scene, Inr (3, 3)) \<and>
   updateNode sorted_list_of_set never_cross (- 1) triangle_scene =
     updateNode sorted_list_of_set never_cross 2 triangle_scene"
proof -
  have a: "int (length (node2lines triangle_scene)) \<le> 3"
    and b: "length (nodes triangle_scene) \<le> length (node2lines triangle_scene)"
    and c: "- int (length (node2lines triangle_scene)) \<le> - 1 \<and> (- 1 :: int) < 0"
    and d: "- 1 + int (length (node2lines triangle_scene)) = 2"
    and r: "node2lines triangle_scene ! nat (- 1 + int (length (node2lines triangle_scene))) =
        [(0, 2), (1, 2)]"
    by (simp_all add: triangle_scene_def)
  have u: "update_edges sorted_list_of_set never_cross [(0, 2), (1, 2)] triangle_scene =
      (triangle_scene, None)"
    by (simp add: triangle_scene_def update_edge_def nth_py_def colliding_lines_def
        collidingItems_def collisions_get_def never_cross_def)
  note big = updateNode_outside_index [of triangle_scene 3 sorted_list_of_set never_cross 7]
  note neg = updateNode_outside_index [of triangle_scene "- 1" sorted_list_of_set never_cross 7]
  from big a b
  have t1: "updateNode sorted_list_of_set never_cross 3 triangle_scene =
        (triangle_scene, Inl IndexError)"
    and t2: "mouseMoveEvent sorted_list_of_set never_cross 3 7 triangle_scene =
        (triangle_scene, Inl IndexError)"
    by blast+
  from neg c
  have n1: "index_py (node2lines triangle_scene) (- 1) =
        Inr (node2lines triangle_scene ! nat (- 1 + int (length (node2lines triangle_scene))))"
    and n2: "updateNode sorted_list_of_set never_cross (- 1) triangle_scene =
        (case update_edges sorted_list_of_set never_cross
                (node2lines triangle_scene !
                   nat (- 1 + int (length (node2lines triangle_scene)))) triangle_scene of
           (st1, Some e) \<Rightarrow> (st1, Inl e)
         | (st1, None) \<Rightarrow>
             if length (lines st1) = 0 then (st1, Inl ZeroDivisionError)
             else (st1, Inr (card (untangled st1), length (lines st1))))"
    and n3: "updateNode sorted_list_of_set never_cross (- 1) triangle_scene =
        updateNode sorted_list_of_set never_cross
          (- 1 + int (length (node2lines triangle_scene))) triangle_scene"
    by blast+
  have i: "index_py (node2lines triangle_scene) (- 1) = Inr [(0, 2), (1, 2)]"
    unfolding n1 r ..
  have v: "updateNode sorted_list_of_set never_cross (- 1) triangle_scene =
      (triangle_scene, Inr (3, 3))"
    unfolding n2 r u by (simp add: triangle_scene_def)
  have e: "updateNode sorted_list_of_set never_cross (- 1) triangle_scene =
      updateNode sorted_list_of_set never_cross 2 triangle_scene"
    unfolding n3 d ..
  from a b t1 t2 c i v e show ?thesis
    by blast
qed

text \<open>
  C7 as the spec words it fails at the index \<open>-1\<close>, which is outside \<open>0..N-1\<close>: the
  call raises nothing and reports three untangled lines out of three.
\<close>

theorem updateNode_negative_index_counterexample:
  "snd (mouseMoveEvent sorted_list_of_set never_cross (- 1) 7 triangle_scene) = Inr (3, 3)"
  by (simp add: mouseMoveEvent_def updateNode_def index_py_def triangle_scene_def
      update_edge_def nth_py_def colliding_lines_def collidingItems_def collisions_get_def
      never_cross_def)

section \<open>The partition of the edges\<close>

text \<open>
  C2. After \<open>init\<close>, and after every mouse move of a run that raises nothing, no edge
  is both in \<open>untangled\<close> and a key of the collision map, and the two together are the
  edge set of the graph.
\<close>

theorem partition_invariant:
  fixes ns :: "'p list"
  assumes "set_order iter" and "finite (edges g)"
    and "init iter cross g ns = Inr st0"
    and "drags iter cross ms st0 = Some st"
  shows "untangled st \<inter> dom (collisions st) = {} \<and>
         untangled st \<union> dom (collisions st) = edges g"
proof -
  note r = reachable_inv [OF assms]
  have wf: "wf_scene st" using r(1) by (simp add: scene_inv_def)
  have u: "untangled st = line_keys st - dom (collisions st)"
    using wf by (simp add: wf_scene_def)
  have "dom (collisions st) \<subseteq> line_keys st" by (rule wf_scene_dom [OF wf])
  then show ?thesis unfolding u r(2) [symmetric] by blast
qed

theorem partition_invariant_witness:
  "set_order sorted_list_of_set \<and> finite (edges quad_graph) \<and>
   init sorted_list_of_set chord_cross quad_graph [0, 1, 2, 3] = Inr quad_scene \<and>
   drags sorted_list_of_set chord_cross [(1, 5)] quad_scene = Some quad_moved \<and>
   untangled quad_moved \<inter> dom (collisions quad_moved) = {} \<and>
   untangled quad_moved \<union> dom (collisions quad_moved) = edges quad_graph"
proof -
  have f: "finite (edges quad_graph)" by (simp add: quad_graph_def)
  have d: "drags sorted_list_of_set chord_cross [(1, 5)] quad_scene = Some quad_moved"
    by (simp add: quad_drag)
  show ?thesis
    using set_order_sorted_list_of_set f quad_init d partition_invariant [OF set_order_sorted_list_of_set f quad_init d] by blast
qed

section \<open>The collision map is well formed\<close>

text \<open>
  C3. After \<open>init\<close>, and after every mouse move of a run that raises nothing, the
  collision map is symmetric (\<open>e2\<close> is recorded at \<open>e1\<close> exactly when \<open>e1\<close> is
  recorded at \<open>e2\<close>), no edge is recorded at itself, and two edges recorded against each
  other have no end in common.
\<close>

theorem collision_map_well_formed:
  fixes ns :: "'p list"
  assumes "set_order iter" and "finite (edges g)"
    and "init iter cross g ns = Inr st0"
    and "drags iter cross ms st0 = Some st"
  shows "(e2 \<in> collisions_get (collisions st) e1 \<longleftrightarrow> e1 \<in> collisions_get (collisions st) e2) \<and>
         e1 \<notin> collisions_get (collisions st) e1 \<and>
         (e2 \<in> collisions_get (collisions st) e1 \<longrightarrow>
            fst e1 \<noteq> fst e2 \<and> fst e1 \<noteq> snd e2 \<and> snd e1 \<noteq> fst e2 \<and> snd e1 \<noteq> snd e2)"
proof -
  note r = reachable_inv [OF assms]
  have wf: "wf_coll (line_keys st) lines_connected (collisions st)"
    using r(1) by (simp add: scene_inv_def wf_scene_def)
  have sym: "y \<in> collisions_get (collisions st) x" if "x \<in> collisions_get (collisions st) y"
    for x y using wf_coll_sym [OF wf that] .
  have nc: "\<not> lines_connected x y" if "x \<in> collisions_get (collisions st) y" for x y
    using wf_coll_conn [OF wf that] .
  have a: "e2 \<in> collisions_get (collisions st) e1 \<longleftrightarrow> e1 \<in> collisions_get (collisions st) e2"
    using sym by blast
  have b: "e1 \<notin> collisions_get (collisions st) e1"
    using nc [of e1 e1] lines_connected_refl by blast
  have c: "fst e1 \<noteq> fst e2 \<and> fst e1 \<noteq> snd e2 \<and> snd e1 \<noteq> fst e2 \<and> snd e1 \<noteq> snd e2"
    if "e2 \<in> collisions_get (collisions st) e1"
    using nc [OF that] by (auto simp: lines_connected_distinct)
  show ?thesis using a b c by blast
qed

theorem collision_map_well_formed_witness:
  "set_order sorted_list_of_set \<and> finite (edges quad_graph) \<and>
   init sorted_list_of_set chord_cross quad_graph [0, 1, 2, 3] = Inr quad_scene \<and>
   drags sorted_list_of_set chord_cross [(1, 5)] quad_scene = Some quad_moved \<and>
   (0, 3) \<in> collisions_get (collisions quad_moved) (1, 2) \<and>
   (1, 2) \<in> collisions_get (collisions quad_moved) (0, 3) \<and>
   (1, 2) \<notin> collisions_get (collisions quad_moved) (1, 2) \<and>
   fst (1 :: nat, 2 :: nat) \<noteq> fst (0 :: nat, 3 :: nat) \<and>
   fst (1 :: nat, 2 :: nat) \<noteq> snd (0 :: nat, 3 :: nat) \<and>
   snd (1 :: nat, 2 :: nat) \<noteq> fst (0 :: nat, 3 :: nat) \<and>
   snd (1 :: nat, 2 :: nat) \<noteq> snd (0 :: nat, 3 :: nat)"
proof -
  have f: "finite (edges quad_graph)" by (simp add: quad_graph_def)
  have d: "drags sorted_list_of_set chord_cross [(1, 5)] quad_scene = Some quad_moved"
    by (simp add: quad_drag)
  have h: "(0, 3) \<in> collisions_get (collisions quad_moved) (1, 2)"
    by (simp add: quad_moved_def collisions_get_def)
  show ?thesis
    using set_order_sorted_list_of_set f quad_init d h
      collision_map_well_formed [OF set_order_sorted_list_of_set f quad_init d, where ?e1.0 = "(1, 2)" and ?e2.0 = "(0, 3)"]
    by blast
qed

section \<open>The progress pair\<close>




section \<open>Incremental is brute force\<close>

text \<open>
  C1. The geometric test is symmetric: \<open>cross s t = cross t s\<close>. Then, in a state
  reached from \<open>init\<close> by a run of mouse moves that raises nothing, running \<open>init\<close>
  again on the same graph with the nodes where they now are (in whatever order it walks
  the edge set) raises nothing and builds the same collision map, and the same
  \<open>untangled\<close> set, as the ones kept up to date move by move.
\<close>

theorem incremental_is_brute_force:
  fixes ns :: "'p list"
  assumes so: "set_order iter" and so': "set_order iter'" and fin: "finite (edges g)"
    and sym: "\<forall>s t. cross s t = cross t s"
    and i: "init iter cross g ns = Inr st0"
    and d: "drags iter cross ms st0 = Some st"
  shows "\<exists>st'. init iter' cross g (nodes st) = Inr st' \<and>
           collisions st' = collisions st \<and> untangled st' = untangled st"
proof -
  note r = reachable_inv [OF so fin i d]
  have wf: "wf_scene st" and inc: "incidence_ok st" and fr: "lines_fresh st"
    using r(1) by (simp_all add: scene_inv_def)
  have geo: "geo_scene cross st" by (rule r(4) [THEN mp, OF sym])
  have r1: "\<forall>e\<in>edges g. fst e < node_idx g \<and> snd e < node_idx g"
    using inc r(2,3) by (simp add: incidence_ok_def)
  have r2: "\<forall>e\<in>edges g. fst e < length (nodes st) \<and> snd e < length (nodes st)"
    using wf r(2) by (simp add: wf_scene_def)
  from init_total [OF so' fin r1 r2, of cross]
  obtain st' where i': "init iter' cross g (nodes st) = Inr st'" by (elim exE)
  note c = init_char [OF so' fin i']
  have geo': "geo_scene cross st'" by (rule c(7) [THEN mp, OF sym])
  have keys: "line_keys st' = line_keys st" using c(2) r(2) by simp
  have m: "map_of (lines st') = map_of (lines st)"
  proof (rule ext)
    fix e
    show "map_of (lines st') e = map_of (lines st) e"
    proof (cases "e \<in> line_keys st")
      case True
      have "map_of (lines st) e = Some (nodes st ! fst e, nodes st ! snd e)"
        using fr True by (simp add: lines_fresh_def)
      moreover have "map_of (lines st') e = Some (nodes st' ! fst e, nodes st' ! snd e)"
        using c(6) True keys by (simp add: lines_fresh_def)
      ultimately show ?thesis using c(3) by simp
    next
      case False
      then have "map_of (lines st) e = None" "map_of (lines st') e = None"
        using keys by (simp_all add: line_keys_def map_of_eq_None_iff)
      then show ?thesis by simp
    qed
  qed
  have dd: "distinct (map fst (lines st))" "distinct (map fst (lines st'))"
    using wf c(1) by (simp_all add: wf_scene_def)
  have cl: "colliding_lines cross (lines st') k = colliding_lines cross (lines st) k" for k
    by (rule colliding_lines_cong [OF dd(2) dd(1) m])
  have ce: "collisions st' = collisions st"
    using geo geo' cl unfolding geo_scene_def by simp
  have "untangled st' = untangled st"
    using wf c(1) keys ce by (simp add: wf_scene_def)
  with i' ce show ?thesis by blast
qed

theorem incremental_is_brute_force_witness:
  "set_order sorted_list_of_set \<and> finite (edges quad_graph) \<and>
   (\<forall>s t. chord_cross s t = chord_cross t s) \<and>
   init sorted_list_of_set chord_cross quad_graph [0, 1, 2, 3] = Inr quad_scene \<and>
   drags sorted_list_of_set chord_cross [(1, 5)] quad_scene = Some quad_moved \<and>
   (\<exists>st'. init sorted_list_of_set chord_cross quad_graph [0, 5, 2, 3] = Inr st' \<and>
      collisions st' = collisions quad_moved \<and> untangled st' = untangled quad_moved)"
proof -
  have f: "finite (edges quad_graph)" by (simp add: quad_graph_def)
  have d: "drags sorted_list_of_set chord_cross [(1, 5)] quad_scene = Some quad_moved"
    by (simp add: quad_drag)
  have n: "nodes quad_moved = [0, 5, 2, 3]" by (simp add: quad_moved_def)
  show ?thesis
    using set_order_sorted_list_of_set f chord_cross_sym quad_init d
      incremental_is_brute_force [OF set_order_sorted_list_of_set set_order_sorted_list_of_set f chord_cross_sym quad_init d]
    unfolding n by blast
qed

end
